theory Spec2Isabelle
  imports Main
begin

section \<open>JavaScript strings and values\<close>

text \<open>
  Strings of the client code are modelled as \<open>string\<close>. A string is falsy in JavaScript
  exactly when it is empty; an optional string (\<open>undefined\<close>, \<open>null\<close> or a string) is
  truthy when it is present and non-empty.
\<close>

definition truthy :: "string option \<Rightarrow> bool" where
  "truthy v = (case v of None \<Rightarrow> False | Some s \<Rightarrow> s \<noteq> [])"

text \<open>\<open>v || d\<close> on an optional string.\<close>

definition or_else :: "string option \<Rightarrow> string \<Rightarrow> string" where
  "or_else v d = (case v of None \<Rightarrow> d | Some s \<Rightarrow> (if s = [] then d else s))"

text \<open>
  \<open>String.prototype.trim\<close> removes white space and line terminators from both ends. The
  characters below are the ones of that class among the 8-bit characters: TAB, LF, VT, FF,
  CR, SPACE and NBSP.
\<close>

definition is_space :: "char \<Rightarrow> bool" where
  "is_space c = (of_char c \<in> {9, 10, 11, 12, 13, 32, 160 :: nat})"

definition trim :: "string \<Rightarrow> string" where
  "trim s = rev (dropWhile is_space (rev (dropWhile is_space s)))"

text \<open>Decimal rendering of a non-negative integer, as a template literal prints it.\<close>

definition digit_char :: "nat \<Rightarrow> char" where
  "digit_char d = ''0123456789'' ! d"

fun show_nat :: "nat \<Rightarrow> string" where
  "show_nat n = (if n < 10 then [digit_char n] else show_nat (n div 10) @ [digit_char (n mod 10)])"

declare show_nat.simps [simp del]

section \<open>Tiptap documents\<close>

text \<open>
  A Tiptap JSON node, with the properties the client reads: \<open>type\<close>, \<open>text\<close>, \<open>marks\<close>,
  \<open>attrs.level\<close>, \<open>attrs.src\<close>, \<open>attrs.alt\<close> and \<open>content\<close>. An absent property is \<open>None\<close>;
  \<open>content\<close>, when present, is an array of nodes. A mark has a \<open>type\<close> and, for links, the
  \<open>attrs.href\<close> the renderer interpolates.
\<close>

datatype mark = Mark (mark_type: string) (mark_href: string)

datatype node =
  Node (ntype: string) (ntext: "string option") (marks: "mark list option")
       (level: "nat option") (src: "string option") (alt: "string option")
       (content: "node list option")

definition is_block :: "node \<Rightarrow> bool" where
  "is_block n = (ntype n = ''paragraph'' \<or> ntype n = ''heading'')"

subsection \<open>Plain-text projection (useAutosave.ts, extractPlainText)\<close>

fun extractFromNode :: "node \<Rightarrow> string" where
  "extractFromNode (Node ty tx ms lv sr al ct) =
     (or_else tx []) @
     (case ct of
        None \<Rightarrow> []
      | Some cs \<Rightarrow>
          concat (map (\<lambda>child. extractFromNode child @ (if is_block child then '' '' else [])) cs))"

definition extractPlainText :: "node option \<Rightarrow> string" where
  "extractPlainText json =
     (case json of
        None \<Rightarrow> []
      | Some n \<Rightarrow> (if content n = None then [] else trim (extractFromNode n)))"



text \<open>Constructors for concrete documents.\<close>

definition text_node :: "string \<Rightarrow> node" where
  "text_node s = Node ''text'' (Some s) None None None None None"

definition elem :: "string \<Rightarrow> node list \<Rightarrow> node" where
  "elem ty cs = Node ty None None None None None (Some cs)"

subsection \<open>Table of contents (PageOutline.vue, extractHeadings)\<close>

datatype heading = Heading (hid: string) (htext: string) (hlevel: nat)

text \<open>\<open>node.attrs?.level || 1\<close>\<close>

definition level_or_1 :: "nat option \<Rightarrow> nat" where
  "level_or_1 lv = (case lv of None \<Rightarrow> 1 | Some l \<Rightarrow> (if l = 0 then 1 else l))"

text \<open>\<open>node.content?.map((n) => n.text || '').join('') || 'Untitled'\<close>\<close>

definition heading_text :: "node list option \<Rightarrow> string" where
  "heading_text ct =
     (let t = (case ct of None \<Rightarrow> [] | Some cs \<Rightarrow> concat (map (\<lambda>n. or_else (ntext n) []) cs))
      in if t = [] then ''Untitled'' else t)"

definition heading_id :: "nat \<Rightarrow> string" where
  "heading_id i = ''heading-'' @ show_nat i"

text \<open>
  \<open>traverse\<close> updates the closure variables \<open>result\<close> and \<open>headingIndex\<close>; they are passed
  through as a pair.
\<close>

fun traverse :: "node \<Rightarrow> heading list \<times> nat \<Rightarrow> heading list \<times> nat" where
  "traverse (Node ty tx ms lv sr al ct) (result, headingIndex) =
     (let st = (if ty = ''heading''
                then (result @ [Heading (heading_id headingIndex) (heading_text ct) (level_or_1 lv)],
                      Suc headingIndex)
                else (result, headingIndex))
      in case ct of None \<Rightarrow> st | Some cs \<Rightarrow> fold traverse cs st)"

definition extractHeadings :: "node option \<Rightarrow> heading list" where
  "extractHeadings json =
     (case json of
        None \<Rightarrow> []
      | Some n \<Rightarrow> (if content n = None then [] else fst (traverse n ([], 0))))"

subsection \<open>Rendering (PageView.vue, renderContent)\<close>

definition dq :: char where
  "dq = CHR 0x22"

text \<open>The body of the loop over \<open>node.marks\<close>: five \<open>if\<close> statements in sequence.\<close>

definition apply_mark :: "mark \<Rightarrow> string \<Rightarrow> string" where
  "apply_mark m text0 =
     (let text1 = (if mark_type m = ''bold'' then ''<strong>'' @ text0 @ ''</strong>'' else text0);
          text2 = (if mark_type m = ''italic'' then ''<em>'' @ text1 @ ''</em>'' else text1);
          text3 = (if mark_type m = ''code'' then ''<code>'' @ text2 @ ''</code>'' else text2);
          text4 = (if mark_type m = ''strike'' then ''<s>'' @ text3 @ ''</s>'' else text3)
      in if mark_type m = ''link''
         then ''<a href='' @ [dq] @ mark_href m @ [dq] @ '' class='' @ [dq] @
              ''text-primary hover:underline'' @ [dq] @ ''>'' @ text4 @ ''</a>''
         else text4)"

definition render_text :: "string \<Rightarrow> mark list option \<Rightarrow> string" where
  "render_text t ms = (case ms of None \<Rightarrow> t | Some l \<Rightarrow> fold apply_mark l t)"

text \<open>
  The \<open>switch\<close> of \<open>renderNode\<close>, given the rendered children and the value of
  \<open>headingIndex\<close> after they were rendered. It returns the HTML, the \<open>id\<close> attributes of
  the heading elements inside that HTML in the order they occur (a ghost value, computed
  from the ids of the children \<open>ids\<close>), and the new \<open>headingIndex\<close>.
\<close>

definition render_switch ::
  "string \<Rightarrow> nat option \<Rightarrow> string option \<Rightarrow> string option \<Rightarrow>
   string \<times> string list \<times> nat \<Rightarrow> string \<times> string list \<times> nat" where
  "render_switch ty lv sr al r =
     (case r of (children, ids, headingIndex) \<Rightarrow>
        if ty = ''doc'' then (children, ids, headingIndex)
        else if ty = ''paragraph'' then
          (''<p>'' @ (if children = [] then ''<br>'' else children) @ ''</p>'', ids, headingIndex)
        else if ty = ''heading'' then
          (''<h'' @ show_nat (level_or_1 lv) @ '' id='' @ [dq] @ heading_id headingIndex @ [dq] @
             ''>'' @ children @ ''</h'' @ show_nat (level_or_1 lv) @ ''>'',
           heading_id headingIndex # ids, Suc headingIndex)
        else if ty = ''bulletList'' then (''<ul>'' @ children @ ''</ul>'', ids, headingIndex)
        else if ty = ''orderedList'' then (''<ol>'' @ children @ ''</ol>'', ids, headingIndex)
        else if ty = ''listItem'' then (''<li>'' @ children @ ''</li>'', ids, headingIndex)
        else if ty = ''codeBlock'' then
          (''<pre><code>'' @ children @ ''</code></pre>'', ids, headingIndex)
        else if ty = ''blockquote'' then
          (''<blockquote>'' @ children @ ''</blockquote>'', ids, headingIndex)
        else if ty = ''horizontalRule'' then (''<hr>'', [], headingIndex)
        else if ty = ''image'' then
          (''<img src='' @ [dq] @ (case sr of None \<Rightarrow> ''undefined'' | Some u \<Rightarrow> u) @ [dq] @
             '' alt='' @ [dq] @ or_else al [] @ [dq] @ '' />'', [], headingIndex)
        else if ty = ''hardBreak'' then (''<br>'', [], headingIndex)
        else (children, ids, headingIndex))"

text \<open>
  \<open>renderNode\<close>, with the closure variable \<open>headingIndex\<close> passed through. A node with a
  non-empty \<open>text\<close> is rendered from its text and marks alone; any other node renders its
  children first (\<open>node.content.map(renderNode).join('')\<close>) and then goes through the switch.
\<close>

fun renderNode :: "node \<Rightarrow> nat \<Rightarrow> string \<times> string list \<times> nat" where
  "renderNode (Node ty tx ms lv sr al ct) headingIndex =
     (if truthy tx then (render_text (or_else tx []) ms, [], headingIndex)
      else render_switch ty lv sr al
        (case ct of
           None \<Rightarrow> ([], [], headingIndex)
         | Some cs \<Rightarrow>
             fold (\<lambda>child (html, ids, i).
                     (case renderNode child i of (h, d, j) \<Rightarrow> (html @ h, ids @ d, j)))
                  cs ([], [], headingIndex)))"

definition renderContent :: "node option \<Rightarrow> string" where
  "renderContent json = (case json of None \<Rightarrow> [] | Some n \<Rightarrow> fst (renderNode n 0))"

text \<open>The \<open>id\<close> attributes of the heading elements of the rendered page, in page order.\<close>

definition rendered_heading_ids :: "node option \<Rightarrow> string list" where
  "rendered_heading_ids json =
     (case json of None \<Rightarrow> [] | Some n \<Rightarrow> fst (snd (renderNode n 0)))"

subsection \<open>Shapes of documents\<close>





subsection \<open>The traversals on a bounded call stack\<close>

text \<open>
  \<open>extractFromNode\<close>, \<open>traverse\<close> and \<open>renderNode\<close> are recursive JavaScript functions:
  every nested call takes a frame of the call stack, and a call made when no frame is left
  throws a \<open>RangeError\<close>, which none of them catches. The functions below are the same
  three functions run with \<open>d\<close> frames left; \<open>None\<close> is the \<open>RangeError\<close>.
\<close>

fun extractFromNode_stk :: "nat \<Rightarrow> node \<Rightarrow> string option" where
  "extractFromNode_stk 0 n = None"
| "extractFromNode_stk (Suc d) (Node ty tx ms lv sr al ct) =
     (case ct of
        None \<Rightarrow> Some (or_else tx [])
      | Some cs \<Rightarrow>
          fold (\<lambda>child acc.
                  case acc of
                    None \<Rightarrow> None
                  | Some text \<Rightarrow>
                      (case extractFromNode_stk d child of
                         None \<Rightarrow> None
                       | Some t \<Rightarrow> Some (text @ t @ (if is_block child then '' '' else []))))
               cs (Some (or_else tx [])))"

fun traverse_stk ::
  "nat \<Rightarrow> node \<Rightarrow> heading list \<times> nat \<Rightarrow> (heading list \<times> nat) option" where
  "traverse_stk 0 n st = None"
| "traverse_stk (Suc d) (Node ty tx ms lv sr al ct) (result, headingIndex) =
     (let st = (if ty = ''heading''
                then (result @ [Heading (heading_id headingIndex) (heading_text ct) (level_or_1 lv)],
                      Suc headingIndex)
                else (result, headingIndex))
      in case ct of
           None \<Rightarrow> Some st
         | Some cs \<Rightarrow>
             fold (\<lambda>child acc. case acc of None \<Rightarrow> None | Some s \<Rightarrow> traverse_stk d child s)
                  cs (Some st))"

fun renderNode_stk :: "nat \<Rightarrow> node \<Rightarrow> nat \<Rightarrow> (string \<times> string list \<times> nat) option" where
  "renderNode_stk 0 n headingIndex = None"
| "renderNode_stk (Suc d) (Node ty tx ms lv sr al ct) headingIndex =
     (if truthy tx then Some (render_text (or_else tx []) ms, [], headingIndex)
      else map_option (render_switch ty lv sr al)
        (case ct of
           None \<Rightarrow> Some ([], [], headingIndex)
         | Some cs \<Rightarrow>
             fold (\<lambda>child acc.
                     case acc of
                       None \<Rightarrow> None
                     | Some (html, ids, i) \<Rightarrow>
                         (case renderNode_stk d child i of
                            None \<Rightarrow> None
                          | Some (h, e, j) \<Rightarrow> Some (html @ h, ids @ e, j)))
                  cs (Some ([], [], headingIndex))))"

text \<open>
  The number of nested calls a traversal of a tree makes: the nesting depth of the tree
  for \<open>extractFromNode\<close> and \<open>traverse\<close>, and the same with text nodes as leaves for
  \<open>renderNode\<close>, which does not descend below them.
\<close>

fun depth :: "node \<Rightarrow> nat" where
  "depth (Node ty tx ms lv sr al ct) =
     Suc (case ct of None \<Rightarrow> 0 | Some cs \<Rightarrow> fold max (map depth cs) 0)"

fun render_depth :: "node \<Rightarrow> nat" where
  "render_depth (Node ty tx ms lv sr al ct) =
     (if truthy tx then 1
      else Suc (case ct of None \<Rightarrow> 0 | Some cs \<Rightarrow> fold max (map render_depth cs) 0))"

text \<open>A document nested \<open>k\<close> levels deep.\<close>

fun nest :: "nat \<Rightarrow> node" where
  "nest 0 = elem ''doc'' []"
| "nest (Suc k) = elem ''doc'' [nest k]"

section \<open>The page id of a route\<close>

text \<open>
  The route parameter \<open>pageIdSlug\<close> has the form \<open>id-slug\<close>; it is \<open>undefined\<close> (\<open>None\<close>)
  on a route without it. \<open>s.split('-')[0]\<close> is the part of \<open>s\<close> before its first dash.
\<close>

definition split_first :: "string \<Rightarrow> string" where
  "split_first s = takeWhile (\<lambda>c. c \<noteq> CHR ''-'') s"

text \<open>The character class \<open>[0-9a-f]\<close> under the flag \<open>i\<close>.\<close>

definition is_hex :: "char \<Rightarrow> bool" where
  "is_hex c = (c \<in> set ''0123456789abcdefABCDEF'')"

text \<open>\<open>[0-9a-f]{k}\<close> at the start of a string: the rest of the string after a match.\<close>

fun hex_run :: "nat \<Rightarrow> string \<Rightarrow> string option" where
  "hex_run 0 s = Some s"
| "hex_run (Suc k) [] = None"
| "hex_run (Suc k) (c # s) = (if is_hex c then hex_run k s else None)"

text \<open>Groups of hexadecimal digits separated by single dashes, at the start of a string.\<close>

fun hex_groups :: "nat list \<Rightarrow> string \<Rightarrow> bool" where
  "hex_groups [] s = True"
| "hex_groups [k] s = (hex_run k s \<noteq> None)"
| "hex_groups (k # ks) s =
     (case hex_run k s of
        None \<Rightarrow> False
      | Some r \<Rightarrow> (case r of [] \<Rightarrow> False | c # r' \<Rightarrow> c = CHR ''-'' \<and> hex_groups ks r'))"

text \<open>
  \<open>s.match(/^([0-9a-f]{8}-[0-9a-f]{4}-[0-9a-f]{4}-[0-9a-f]{4}-[0-9a-f]{12})/i)\<close>: the first
  group of the match, which is the first 36 characters of \<open>s\<close>.
\<close>

definition match_uuid :: "string \<Rightarrow> string option" where
  "match_uuid s = (if hex_groups [8, 4, 4, 4, 12] s then Some (take 36 s) else None)"

text \<open>PageView.vue, \<open>pageId\<close>.\<close>

definition pageId :: "string option \<Rightarrow> string option" where
  "pageId pageIdSlug =
     (if \<not> truthy pageIdSlug then None
      else case match_uuid (or_else pageIdSlug []) of
             Some m \<Rightarrow> Some m
           | None \<Rightarrow> Some (split_first (or_else pageIdSlug [])))"

text \<open>PageTree.vue, \<open>currentPageId\<close>.\<close>

definition currentPageId :: "string option \<Rightarrow> string option" where
  "currentPageId pageIdSlug =
     (if \<not> truthy pageIdSlug then None else Some (split_first (or_else pageIdSlug [])))"

section \<open>The page tree of a space (PageTree.vue)\<close>

text \<open>
  The \<open>TreeNode\<close> of the service interface (pageService.ts); its field \<open>id\<close> is \<open>node_id\<close>
  here. The root sentinel of a space is the node without a \<open>page_id\<close>.
\<close>

record tree_node =
  node_id :: string
  space_id :: string
  page_id :: "string option"
  parent_id :: "string option"
  position :: int
  title :: "string option"
  slug :: "string option"
  is_archived :: bool
  has_children :: bool

text \<open>
  The node objects of the displayed tree. \<open>buildTreeStructure\<close> creates one object per
  non-sentinel node and stores it in \<open>nodeMap\<close> under the id of the node; the children
  array of an object holds references to other such objects. An object is identified here
  by the key under which \<open>nodeMap\<close> holds it, so a children array is a list of node ids and
  \<open>nodeMap\<close> is the store of the objects. The field \<open>is_archived\<close> of an object is
  \<open>obj_is_archived\<close> here.
\<close>

record tree_obj =
  key :: string
  label :: string
  icon :: string
  children :: "string list"
  data :: tree_node
  obj_is_archived :: bool
  leaf :: bool

type_synonym node_map = "string \<rightharpoonup> tree_obj"

text \<open>The displayed tree: the array of root references, and the objects they refer to.\<close>

type_synonym forest = "string list \<times> node_map"

text \<open>The first \<open>forEach\<close>: create the node objects.\<close>

definition new_object :: "tree_node \<Rightarrow> tree_obj" where
  "new_object node =
     \<lparr> key = or_else (page_id node) [],
       label = or_else (title node) ''Untitled'',
       icon = (if has_children node then ''pi pi-folder'' else ''pi pi-file''),
       children = [],
       data = node,
       obj_is_archived = is_archived node,
       leaf = (\<not> has_children node) \<rparr>"

definition create_object :: "tree_node \<Rightarrow> node_map \<Rightarrow> node_map" where
  "create_object node nodeMap =
     (if \<not> truthy (page_id node) then nodeMap
      else nodeMap(node_id node \<mapsto> new_object node))"

text \<open>The second \<open>forEach\<close>: push every object to its parent's children or to the roots.\<close>

definition link_object :: "tree_node \<Rightarrow> node_map \<times> string list \<Rightarrow> node_map \<times> string list" where
  "link_object node st =
     (case st of (nodeMap, rootNodes) \<Rightarrow>
        if \<not> truthy (page_id node) then (nodeMap, rootNodes)
        else case nodeMap (node_id node) of
               None \<Rightarrow> (nodeMap, rootNodes)
             | Some treeNode \<Rightarrow>
                 if truthy (parent_id node) then
                   (case nodeMap (or_else (parent_id node) []) of
                      Some parent \<Rightarrow>
                        (nodeMap(or_else (parent_id node) [] \<mapsto>
                           parent\<lparr>children := children parent @ [node_id node]\<rparr>),
                         rootNodes)
                    | None \<Rightarrow> (nodeMap, rootNodes @ [node_id node]))
                 else (nodeMap, rootNodes @ [node_id node]))"

definition buildTreeStructure :: "tree_node list \<Rightarrow> forest" where
  "buildTreeStructure nodes =
     (case fold link_object nodes (fold create_object nodes Map.empty, []) of
        (nodeMap, rootNodes) \<Rightarrow> (rootNodes, nodeMap))"

text \<open>The children array of the object of a node, empty when the node has no object.\<close>

definition children_of :: "forest \<Rightarrow> string \<Rightarrow> string list" where
  "children_of f i = (case snd f i of None \<Rightarrow> [] | Some obj \<Rightarrow> children obj)"

text \<open>The objects of the returned tree: the roots, and the children of its objects.\<close>

inductive in_forest :: "forest \<Rightarrow> string \<Rightarrow> bool" for f :: forest where
  root: "i \<in> set (fst f) \<Longrightarrow> in_forest f i"
| child: "in_forest f p \<Longrightarrow> i \<in> set (children_of f p) \<Longrightarrow> in_forest f i"

text \<open>A node that is not the root sentinel.\<close>

definition is_page :: "tree_node \<Rightarrow> bool" where
  "is_page node = truthy (page_id node)"

text \<open>A node whose \<open>parent_id\<close> names a non-sentinel node of the list.\<close>

definition has_parent_in :: "tree_node list \<Rightarrow> tree_node \<Rightarrow> bool" where
  "has_parent_in nodes node =
     (truthy (parent_id node) \<and>
      (\<exists>p\<in>set nodes. is_page p \<and> node_id p = or_else (parent_id node) []))"

text \<open>A node whose \<open>parent_id\<close> is the id \<open>p\<close>.\<close>

definition child_of :: "string \<Rightarrow> tree_node \<Rightarrow> bool" where
  "child_of p node = (truthy (parent_id node) \<and> or_else (parent_id node) [] = p)"

text \<open>The ids of the non-sentinel nodes of a list.\<close>

definition page_node_ids :: "tree_node list \<Rightarrow> string set" where
  "page_node_ids nodes = set (map node_id (filter is_page nodes))"

text \<open>A node whose chain of parents ends at a node without a parent in the list.\<close>

inductive rooted :: "tree_node list \<Rightarrow> tree_node \<Rightarrow> bool" for nodes :: "tree_node list" where
  top: "n \<in> set nodes \<Longrightarrow> is_page n \<Longrightarrow> \<not> has_parent_in nodes n \<Longrightarrow> rooted nodes n"
| below: "n \<in> set nodes \<Longrightarrow> is_page n \<Longrightarrow> truthy (parent_id n) \<Longrightarrow>
          rooted nodes p \<Longrightarrow> node_id p = or_else (parent_id n) [] \<Longrightarrow> rooted nodes n"

text \<open>The steps of the second loop, named for the proofs.\<close>

definition attach_root :: "string set \<Rightarrow> tree_node \<Rightarrow> bool" where
  "attach_root D n = (is_page n \<and> node_id n \<in> D \<and>
      \<not> (truthy (parent_id n) \<and> or_else (parent_id n) [] \<in> D))"

definition attach_child :: "string set \<Rightarrow> string \<Rightarrow> tree_node \<Rightarrow> bool" where
  "attach_child D p n = (is_page n \<and> node_id n \<in> D \<and> child_of p n)"

definition push_children :: "string list \<Rightarrow> tree_obj \<Rightarrow> tree_obj" where
  "push_children ids ob = ob\<lparr>children := children ob @ ids\<rparr>"

text \<open>A concrete node for examples.\<close>

definition mk_node :: "string \<Rightarrow> string option \<Rightarrow> string option \<Rightarrow> int \<Rightarrow> tree_node" where
  "mk_node i pg par pos =
     \<lparr> node_id = i, space_id = ''s'', page_id = pg, parent_id = par, position = pos,
       title = None, slug = None, is_archived = False, has_children = False \<rparr>"

section \<open>The backend behind the service interface\<close>

text \<open>
  The client talks to a backend (\<open>app/crud\<close>, \<open>app/routers\<close>) that is not among the
  sources. Its operations are modelled from the specification, and each definition that
  is modelled from it says so.
\<close>

text \<open>The error taxonomy of the specification (section 7).\<close>

datatype error = NotFound | Conflict string | CircularReference | InvalidParent | CorruptTree

text \<open>
  The outcome of a request: a response body, or the error the promise is rejected with
  (\<open>err.response?.status\<close>, \<open>err.response.headers['etag']\<close>, \<open>err.message\<close>).
\<close>

datatype 'a http_result =
  Resolved 'a
| Rejected (status: "nat option") (etag_header: "string option") (message: "string option")

subsection \<open>Drafts\<close>

text \<open>The body of \<open>PUT /pages/{id}/draft\<close> and its \<open>If-Match\<close> header (pageService.ts, updateDraft).\<close>

record draft_request =
  req_pageId :: string
  req_draft_json :: node
  req_draft_text :: string
  req_if_match :: "string option"
  header_if_match :: "string option"

definition updateDraft :: "string \<Rightarrow> node \<Rightarrow> string \<Rightarrow> string option \<Rightarrow> draft_request" where
  "updateDraft pid draftJson draftText ifMatch =
     \<lparr> req_pageId = pid, req_draft_json = draftJson, req_draft_text = draftText,
       req_if_match = ifMatch,
       header_if_match = (if truthy ifMatch then ifMatch else None) \<rparr>"

record draft_response =
  draft_json :: node
  draft_text :: string
  draft_etag :: string

record page_version =
  version_number :: nat
  version_title :: string
  content_json :: "node option"
  content_text :: string
  version_notes :: "string option"

text \<open>
  Modelled from the spec: the page row of the backend (section 3), with its draft, the
  monotonic counter the concurrency token is derived from, and its chain of versions.
\<close>

record page =
  pg_title :: string
  pg_draft_json :: "node option"
  pg_draft_text :: string
  pg_draft_rev :: nat
  pg_versions :: "page_version list"

text \<open>
  Modelled from the spec: the concurrency token of a draft, "derived deterministically from
  draft content and/or a monotonic counter" (section 4.2). The backend's derivation is
  missing; the token here is the counter in decimal after a letter.
\<close>

definition draft_token :: "page \<Rightarrow> string" where
  "draft_token p = CHR ''v'' # show_nat (pg_draft_rev p)"

text \<open>
  Modelled from the spec: the draft write of the Draft Concurrency Controller (section
  4.2), which is missing from the sources. A supplied token that does not match the stored
  one is rejected with \<open>Conflict\<close> and the current token; a matching or absent token
  replaces the content in full and issues a new token.
\<close>

definition write_draft ::
  "page \<Rightarrow> string option \<Rightarrow> node \<Rightarrow> string \<Rightarrow> (error + draft_response) \<times> page" where
  "write_draft p supplied doc plain =
     (if supplied \<noteq> None \<and> supplied \<noteq> Some (draft_token p)
      then (Inl (Conflict (draft_token p)), p)
      else (let p' = p\<lparr>pg_draft_json := Some doc, pg_draft_text := plain,
                        pg_draft_rev := Suc (pg_draft_rev p)\<rparr>
            in (Inr \<lparr>draft_json = doc, draft_text = plain, draft_etag = draft_token p'\<rparr>, p')))"

text \<open>
  Modelled from the spec: \<open>PUT /pages/{id}/draft\<close> (section 6), which answers a conflict
  with \<open>409 Conflict\<close> and the current token. The client reads that token from the \<open>etag\<close>
  header of the response.
\<close>

definition put_draft :: "draft_request \<Rightarrow> page \<Rightarrow> draft_response http_result \<times> page" where
  "put_draft req p =
     (case write_draft p (header_if_match req) (req_draft_json req) (req_draft_text req) of
        (Inr r, p') \<Rightarrow> (Resolved r, p')
      | (Inl (Conflict cur), p') \<Rightarrow>
          (Rejected (Some 409) (Some cur) (Some ''Request failed with status code 409''), p')
      | (Inl e, p') \<Rightarrow>
          (Rejected (Some 500) None (Some ''Request failed with status code 500''), p'))"

subsection \<open>Versions\<close>

text \<open>
  Modelled from the spec: publish (section 4.3), which is missing from the sources. The
  new version gets the number after the highest existing one (1 when there is none) and
  the draft's current title, content and plain text; the draft is left as it is.
\<close>

definition publish :: "string option \<Rightarrow> page \<Rightarrow> page_version \<times> page" where
  "publish nts p =
     (let v = \<lparr> version_number = Suc (fold max (map version_number (pg_versions p)) 0),
                version_title = pg_title p,
                content_json = pg_draft_json p,
                content_text = pg_draft_text p,
                version_notes = nts \<rparr>
      in (v, p\<lparr>pg_versions := pg_versions p @ [v]\<rparr>))"

text \<open>Modelled from the spec: \<open>PATCH /pages/{id}\<close> with a title (section 6).\<close>

definition update_title :: "string \<Rightarrow> page \<Rightarrow> page" where
  "update_title t p = p\<lparr>pg_title := t\<rparr>"

section \<open>Draft autosave (useAutosave.ts)\<close>

datatype toast = Toast (severity: string) (summary: string)

text \<open>
  The state of one \<open>useAutosave\<close>: its refs, its closure variables, the toasts it has
  shown, and the state \<open>host\<close> of the component that owns the refs and callbacks passed in
  the options. \<open>lastSavedContent\<close> holds the content whose serialisation the client keeps
  (\<open>JSON.stringify\<close> of two contents is equal when the contents are); \<open>lastSaved\<close> holds a
  time; \<open>saveTimeout\<close> tells whether a timer handle is stored.
\<close>

record 'h autosave =
  isSaving :: bool
  lastSaved :: "nat option"
  hasUnsavedChanges :: bool
  saveError :: "string option"
  saveTimeout :: bool
  lastSavedContent :: "node option"
  toasts :: "toast list"
  host :: 'h

text \<open>\<open>AutosaveOptions\<close>: the refs are read from the host, the callbacks act on it.\<close>

record 'h autosave_options =
  opt_pageId :: "'h \<Rightarrow> string option"
  opt_content :: "'h \<Rightarrow> node option"
  opt_etag :: "'h \<Rightarrow> string option"
  onConflict :: "(string \<Rightarrow> 'h \<Rightarrow> 'h) option"
  onEtagUpdate :: "(string \<Rightarrow> 'h \<Rightarrow> 'h) option"

text \<open>The request \<open>saveDraft\<close> sends for content \<open>c\<close>: the token is \<open>etag.value || undefined\<close>.\<close>

definition draft_request_of :: "'h autosave_options \<Rightarrow> node \<Rightarrow> 'h autosave \<Rightarrow> draft_request" where
  "draft_request_of opts c s =
     updateDraft (or_else (opt_pageId opts (host s)) []) c (extractPlainText (Some c))
       (if truthy (opt_etag opts (host s)) then opt_etag opts (host s) else None)"

text \<open>The \<open>try\<close> block after the request has resolved.\<close>

definition save_resolved ::
  "'h autosave_options \<Rightarrow> nat \<Rightarrow> node \<Rightarrow> draft_response \<Rightarrow> 'h autosave \<Rightarrow> 'h autosave" where
  "save_resolved opts now c response s =
     (let s' = (case onEtagUpdate opts of
                  Some f \<Rightarrow>
                    if draft_etag response \<noteq> [] then s\<lparr>host := f (draft_etag response) (host s)\<rparr>
                    else s
                | None \<Rightarrow> s)
      in s'\<lparr>lastSaved := Some now, lastSavedContent := Some c, hasUnsavedChanges := False\<rparr>)"

text \<open>The \<open>catch\<close> block.\<close>

definition save_rejected ::
  "'h autosave_options \<Rightarrow> nat option \<Rightarrow> string option \<Rightarrow> string option \<Rightarrow> 'h autosave \<Rightarrow> 'h autosave" where
  "save_rejected opts st currentEtag msg s =
     (if st = Some 409 then
        (let s' = s\<lparr>saveError := Some ''Editing conflict detected''\<rparr>
         in case onConflict opts of
              Some f \<Rightarrow>
                if truthy currentEtag then s'\<lparr>host := f (or_else currentEtag []) (host s')\<rparr>
                else s'\<lparr>toasts := toasts s' @ [Toast ''warn'' ''Editing Conflict'']\<rparr>
            | None \<Rightarrow> s'\<lparr>toasts := toasts s' @ [Toast ''warn'' ''Editing Conflict'']\<rparr>)
      else s\<lparr>saveError := Some (or_else msg ''Failed to save''),
              toasts := toasts s @ [Toast ''error'' ''Save Failed'']\<rparr>)"

text \<open>
  \<open>saveDraft(force)\<close>, run to completion against a server \<open>send\<close> with state \<open>srv\<close>, at
  time \<open>now\<close>.
\<close>

definition saveDraft ::
  "'h autosave_options \<Rightarrow> (draft_request \<Rightarrow> 'srv \<Rightarrow> draft_response http_result \<times> 'srv) \<Rightarrow>
   nat \<Rightarrow> bool \<Rightarrow> 'srv \<times> 'h autosave \<Rightarrow> 'srv \<times> 'h autosave" where
  "saveDraft opts send now force st =
     (case st of (srv, s) \<Rightarrow>
        if \<not> truthy (opt_pageId opts (host s)) \<or> isSaving s then (srv, s)
        else case opt_content opts (host s) of
          None \<Rightarrow> (srv, s)
        | Some c \<Rightarrow>
            if \<not> force \<and> Some c = lastSavedContent s then (srv, s\<lparr>hasUnsavedChanges := False\<rparr>)
            else
              (let s1 = s\<lparr>isSaving := True, saveError := None\<rparr>
               in case send (draft_request_of opts c s1) srv of
                    (Resolved response, srv') \<Rightarrow>
                      (srv', (save_resolved opts now c response s1)\<lparr>isSaving := False\<rparr>)
                  | (Rejected st currentEtag msg, srv') \<Rightarrow>
                      (srv', (save_rejected opts st currentEtag msg s1)\<lparr>isSaving := False\<rparr>)))"

definition debouncedSave :: "'h autosave \<Rightarrow> 'h autosave" where
  "debouncedSave s = s\<lparr>hasUnsavedChanges := True, saveTimeout := True\<rparr>"

definition saveNow ::
  "'h autosave_options \<Rightarrow> (draft_request \<Rightarrow> 'srv \<Rightarrow> draft_response http_result \<times> 'srv) \<Rightarrow>
   nat \<Rightarrow> 'srv \<times> 'h autosave \<Rightarrow> 'srv \<times> 'h autosave" where
  "saveNow opts send now st =
     (case st of (srv, s) \<Rightarrow> saveDraft opts send now True (srv, s\<lparr>saveTimeout := False\<rparr>))"

section \<open>Editing and publishing a page (PageView.vue)\<close>

text \<open>
  The refs of \<open>PageView\<close> that autosave and publishing touch, with the conflict state of the
  editor component (\<open>editorRef\<close> tells whether the editor is mounted).
\<close>

record pageview =
  pageIdSlug :: "string option"
  loaded_title :: "string option"
  editTitle :: string
  draftContent :: "node option"
  currentEtag :: "string option"
  editorRef :: bool
  conflictEtag :: "string option"
  showConflictDialog :: bool
  showPublishDialog :: bool
  publishNotes :: string
  isPublishing :: bool
  isEditing :: bool
  published :: "page_version list"

text \<open>The options \<open>PageView\<close> passes to \<open>useAutosave\<close>.\<close>

definition pageview_options :: "pageview autosave_options" where
  "pageview_options =
     \<lparr> opt_pageId = (\<lambda>h. pageId (pageIdSlug h)),
       opt_content = draftContent,
       opt_etag = currentEtag,
       onConflict = Some (\<lambda>newEtag h.
          if editorRef h then h\<lparr>conflictEtag := Some newEtag, showConflictDialog := True\<rparr> else h),
       onEtagUpdate = Some (\<lambda>newEtag h. h\<lparr>currentEtag := Some newEtag\<rparr>) \<rparr>"

text \<open>
  \<open>confirmPublish\<close> against the backend: the forced save, the title update when the title
  was edited, and the publish request; the version the backend returns is appended to
  \<open>published\<close>. The reload of the page that follows is left out.
\<close>

definition confirmPublish :: "nat \<Rightarrow> page \<times> pageview autosave \<Rightarrow> page \<times> pageview autosave" where
  "confirmPublish now st =
     (case st of (srv, s) \<Rightarrow>
        if \<not> truthy (pageId (pageIdSlug (host s))) then (srv, s)
        else
          (case saveNow pageview_options put_draft now
                  (srv, s\<lparr>host := (host s)\<lparr>isPublishing := True\<rparr>\<rparr>) of
             (srv1, s1) \<Rightarrow>
               (let srv2 = (if Some (editTitle (host s1)) \<noteq> loaded_title (host s1)
                            then update_title (editTitle (host s1)) srv1 else srv1)
                in case publish (if publishNotes (host s1) = [] then None
                                 else Some (publishNotes (host s1))) srv2 of
                     (version, srv3) \<Rightarrow>
                       (srv3,
                        s1\<lparr>toasts := toasts s1 @ [Toast ''success'' ''Published''],
                           host := (host s1)\<lparr>showPublishDialog := False, publishNotes := [],
                                             isEditing := False, isPublishing := False,
                                             published := published (host s1) @ [version]\<rparr>\<rparr>))))"

text \<open>The initial state of \<open>useAutosave\<close>, and concrete states for examples.\<close>

definition init_autosave :: "'h \<Rightarrow> 'h autosave" where
  "init_autosave h =
     \<lparr> isSaving = False, lastSaved = None, hasUnsavedChanges = False, saveError = None,
       saveTimeout = False, lastSavedContent = None, toasts = [], host = h \<rparr>"

definition doc_of :: "string \<Rightarrow> node" where
  "doc_of s = elem ''doc'' [elem ''paragraph'' [text_node s]]"

definition example_view :: "string \<Rightarrow> string \<Rightarrow> pageview" where
  "example_view s tok =
     \<lparr> pageIdSlug = Some ''p1-intro'', loaded_title = Some ''Intro'', editTitle = ''Intro'',
       draftContent = Some (doc_of s), currentEtag = Some tok, editorRef = True,
       conflictEtag = None, showConflictDialog = False, showPublishDialog = True,
       publishNotes = [], isPublishing = False, isEditing = True, published = [] \<rparr>"

definition example_page :: "string \<Rightarrow> nat \<Rightarrow> page" where
  "example_page s k =
     \<lparr> pg_title = ''Intro'', pg_draft_json = Some (doc_of s), pg_draft_text = s,
       pg_draft_rev = k, pg_versions = [] \<rparr>"

section \<open>The tree store of the backend\<close>

text \<open>
  Modelled from the spec: the position of a new or moved node among its siblings (section
  4.1). The code of the Gapped Tree Store is missing from the sources.
\<close>

definition GAP :: int where
  "GAP = 1024"

datatype insertion = Between int int | AfterLast int | EmptyParent

definition allocate_position :: "insertion \<Rightarrow> int" where
  "allocate_position ins =
     (case ins of
        Between prev nxt \<Rightarrow> (prev + nxt) div 2
      | AfterLast lst \<Rightarrow> lst + GAP
      | EmptyParent \<Rightarrow> GAP)"










section \<open>Moving pages in the tree (PageTree.vue)\<close>

text \<open>The refs of \<open>PageTree\<close>; \<open>expandedKeys\<close> and \<open>selectedKeys\<close> hold the keys set to true.\<close>

record pagetree =
  treeNodes :: forest
  flatTreeNodes :: "tree_node list"
  expandedKeys :: "string set"
  selectedKeys :: "string set"
  loading :: bool
  error :: "string option"
  draggedNode :: "tree_obj option"
  tree_toasts :: "toast list"

text \<open>The drop event of the tree component: the node dropped on, if any, and the index.\<close>

record drop_event =
  dropNode :: "tree_obj option"
  dropIndex :: int

text \<open>The body of \<open>POST /tree/node/{id}/move\<close> (pageService.ts, moveNode).\<close>

record move_request =
  mv_node_id :: string
  mv_parent_id :: "string option"
  mv_position :: int




text \<open>"Calculate new parent and position" of \<open>onNodeDrop\<close>.\<close>

definition drop_target :: "drop_event \<Rightarrow> string option \<times> int" where
  "drop_target ev =
     (case dropNode ev of
        Some targetNode \<Rightarrow> (Some (node_id (data targetNode)), 1024)
      | None \<Rightarrow> (None, (dropIndex ev + 1) * 1024))"

definition drop_request :: "tree_obj \<Rightarrow> drop_event \<Rightarrow> move_request" where
  "drop_request droppedNode ev =
     \<lparr> mv_node_id = node_id (data droppedNode),
       mv_parent_id = fst (drop_target ev),
       mv_position = snd (drop_target ev) \<rparr>"







section \<open>Histories of a page\<close>

text \<open>
  Modelled from the spec: the operations on one page that reach the backend, a draft
  write (section 4.2) or a publish (section 4.3), applied in sequence.
\<close>

datatype page_op = WriteDraft "string option" node string | Publish "string option"

fun apply_page_op :: "page_op \<Rightarrow> page \<Rightarrow> page" where
  "apply_page_op (WriteDraft t c x) p = snd (write_draft p t c x)"
| "apply_page_op (Publish nts) p = snd (publish nts p)"

fun is_publish :: "page_op \<Rightarrow> bool" where
  "is_publish (Publish nts) = True"
| "is_publish (WriteDraft t c x) = False"



section \<open>Properties of the plain-text projection\<close>






section \<open>Heading anchors of the outline and of the rendered page\<close>




declare renderNode.simps [simp del]









text \<open>
  Two more trees outside the editor's schema on which the two sequences differ: a heading
  that carries a \<open>text\<close> of its own is in the outline and is rendered as plain text, and a
  heading below an image is in the outline and is not rendered.
\<close>

lemma heading_ids_text_heading:
  "map hid (extractHeadings (Some (elem ''doc'' [Node ''heading'' (Some ''t'') None None None None None])))
     = [''heading-0''] \<and>
   rendered_heading_ids (Some (elem ''doc'' [Node ''heading'' (Some ''t'') None None None None None]))
     = []"
  by (simp add: extractHeadings_def rendered_heading_ids_def elem_def truthy_def
      renderNode.simps render_switch_def heading_id_def show_nat.simps digit_char_def)

lemma heading_ids_below_image:
  "map hid (extractHeadings (Some (elem ''doc'' [elem ''image'' [elem ''heading'' []]])))
     = [''heading-0''] \<and>
   rendered_heading_ids (Some (elem ''doc'' [elem ''image'' [elem ''heading'' []]])) = []"
  by (simp add: extractHeadings_def rendered_heading_ids_def elem_def truthy_def
      renderNode.simps render_switch_def heading_id_def show_nat.simps digit_char_def)



section \<open>Recursion depth of the traversals\<close>

lemma fold_max_le: "fold max xs (a::nat) \<le> d \<longleftrightarrow> a \<le> d \<and> (\<forall>x\<in>set xs. x \<le> d)"
  by (induction xs arbitrary: a) auto

lemma extract_concat:
  "fold (\<lambda>child text. text @ extractFromNode child @ (if is_block child then '' '' else [])) cs acc
   = acc @ concat (map (\<lambda>child. extractFromNode child @ (if is_block child then '' '' else [])) cs)"
  by (induction cs arbitrary: acc) simp_all

text \<open>A loop that stops at the first exception, against the same loop without exceptions.\<close>

lemma fold_opt_None:
  "fold (\<lambda>child acc. case acc of None \<Rightarrow> None | Some s \<Rightarrow> f child s) cs None = None"
  by (induction cs) simp_all

lemma fold_opt_Some:
  "\<forall>c\<in>set cs. \<forall>s. f c s = Some (g c s) \<Longrightarrow>
   fold (\<lambda>child acc. case acc of None \<Rightarrow> None | Some s \<Rightarrow> f child s) cs (Some a)
     = Some (fold g cs a)"
  by (induction cs arbitrary: a) simp_all

lemma fold_opt_fail:
  "\<forall>c\<in>set cs. \<forall>s. f c s = Some (g c s) \<or> f c s = None \<Longrightarrow>
   \<exists>c\<in>set cs. \<forall>s. f c s = None \<Longrightarrow>
   fold (\<lambda>child acc. case acc of None \<Rightarrow> None | Some s \<Rightarrow> f child s) cs a = None"
proof (induction cs arbitrary: a)
  case Nil
  then show ?case by simp
next
  case (Cons c cs)
  show ?case
  proof (cases a)
    case None
    then show ?thesis by (simp add: fold_opt_None)
  next
    case (Some s)
    show ?thesis
    proof (cases "f c s")
      case None
      then show ?thesis using Some by (simp add: fold_opt_None)
    next
      case (Some y)
      then have "\<not> (\<forall>s. f c s = None)" by auto
      then have "\<exists>c\<in>set cs. \<forall>s. f c s = None" using Cons.prems(2) by auto
      then show ?thesis using Cons.IH Cons.prems(1) by simp
    qed
  qed
qed
lemma extract_stk_eq:
  "extractFromNode_stk d n = (if depth n \<le> d then Some (extractFromNode n) else None)"
proof (induction d arbitrary: n)
  case 0
  show ?case by (cases n) simp
next
  case (Suc d)
  obtain ty tx ms lv sr al ct where n: "n = Node ty tx ms lv sr al ct" by (cases n)
  show ?case
  proof (cases ct)
    case None
    then show ?thesis using n by simp
  next
    case (Some cs)
    let ?f = "\<lambda>c s. case extractFromNode_stk d c of
                       None \<Rightarrow> None
                     | Some t \<Rightarrow> Some (s @ t @ (if is_block c then '' '' else []))"
    let ?g = "\<lambda>c s. s @ extractFromNode c @ (if is_block c then '' '' else [])"
    have unf: "extractFromNode_stk (Suc d) n =
        fold (\<lambda>child acc. case acc of None \<Rightarrow> None | Some s \<Rightarrow> ?f child s) cs (Some (or_else tx []))"
      using n Some by simp
    show ?thesis
    proof (cases "\<forall>c\<in>set cs. depth c \<le> d")
      case True
      then have "\<forall>c\<in>set cs. \<forall>s. ?f c s = Some (?g c s)" by (simp add: Suc.IH)
      then have "extractFromNode_stk (Suc d) n = Some (fold ?g cs (or_else tx []))"
        unfolding unf by (rule fold_opt_Some)
      then show ?thesis using True n Some by (simp add: extract_concat fold_max_le)
    next
      case False
      then have 1: "\<exists>c\<in>set cs. \<forall>s. ?f c s = None" by (auto simp: Suc.IH)
      have 2: "\<forall>c\<in>set cs. \<forall>s. ?f c s = Some (?g c s) \<or> ?f c s = None" by (simp add: Suc.IH)
      have "extractFromNode_stk (Suc d) n = None"
        unfolding unf using 2 1 by (rule fold_opt_fail)
      then show ?thesis using False n Some by (simp add: fold_max_le)
    qed
  qed
qed

lemma traverse_stk_eq:
  "traverse_stk d n st = (if depth n \<le> d then Some (traverse n st) else None)"
proof (induction d arbitrary: n st)
  case 0
  show ?case by (cases n) simp
next
  case (Suc d)
  obtain ty tx ms lv sr al ct where n: "n = Node ty tx ms lv sr al ct" by (cases n)
  obtain result headingIndex where st: "st = (result, headingIndex)" by (cases st)
  define st' where "st' = (if ty = ''heading''
                then (result @ [Heading (heading_id headingIndex) (heading_text ct) (level_or_1 lv)],
                      Suc headingIndex)
                else (result, headingIndex))"
  show ?case
  proof (cases ct)
    case None
    then show ?thesis using n st by simp
  next
    case (Some cs)
    have unf: "traverse_stk (Suc d) n st =
        fold (\<lambda>child acc. case acc of None \<Rightarrow> None | Some s \<Rightarrow> traverse_stk d child s) cs (Some st')"
      using n st Some by (simp add: st'_def)
    have unf2: "traverse n st = fold traverse cs st'"
      using n st Some by (simp add: st'_def)
    show ?thesis
    proof (cases "\<forall>c\<in>set cs. depth c \<le> d")
      case True
      then have "\<forall>c\<in>set cs. \<forall>s. traverse_stk d c s = Some (traverse c s)" by (simp add: Suc.IH)
      then have "traverse_stk (Suc d) n st = Some (fold traverse cs st')"
        unfolding unf by (rule fold_opt_Some)
      then show ?thesis using True n Some unf2 by (simp add: fold_max_le)
    next
      case False
      then have 1: "\<exists>c\<in>set cs. \<forall>s. traverse_stk d c s = None" by (auto simp: Suc.IH)
      have 2: "\<forall>c\<in>set cs. \<forall>s. traverse_stk d c s = Some (traverse c s) \<or> traverse_stk d c s = None"
        by (simp add: Suc.IH)
      have "traverse_stk (Suc d) n st = None"
        unfolding unf using 2 1 by (rule fold_opt_fail)
      then show ?thesis using False n Some by (simp add: fold_max_le)
    qed
  qed
qed

lemma renderNode_stk_eq:
  "renderNode_stk d n i = (if render_depth n \<le> d then Some (renderNode n i) else None)"
  supply renderNode.simps [simp]
proof (induction d arbitrary: n i)
  case 0
  show ?case by (cases n) simp
next
  case (Suc d)
  obtain ty tx ms lv sr al ct where n: "n = Node ty tx ms lv sr al ct" by (cases n)
  show ?case
  proof (cases "truthy tx")
    case True
    then show ?thesis using n by simp
  next
    case nt: False
    show ?thesis
    proof (cases ct)
      case None
      then show ?thesis using n nt by simp
    next
      case (Some cs)
      let ?f = "\<lambda>c (s :: string \<times> string list \<times> nat). case s of (html, ids, i) \<Rightarrow>
                         (case renderNode_stk d c i of
                            None \<Rightarrow> None
                          | Some (h, e, j) \<Rightarrow> Some (html @ h, ids @ e, j))"
      let ?g = "\<lambda>child (s :: string \<times> string list \<times> nat). case s of (html, ids, i) \<Rightarrow>
                     (case renderNode child i of (h, d, j) \<Rightarrow> (html @ h, ids @ d, j))"
      have unf: "renderNode_stk (Suc d) n i = map_option (render_switch ty lv sr al)
          (fold (\<lambda>child acc. case acc of None \<Rightarrow> None | Some s \<Rightarrow> ?f child s) cs (Some ([], [], i)))"
        using n nt Some by simp
      have unf2: "renderNode n i = render_switch ty lv sr al (fold ?g cs ([], [], i))"
        using n nt Some by simp
      show ?thesis
      proof (cases "\<forall>c\<in>set cs. render_depth c \<le> d")
        case True
        then have "\<forall>c\<in>set cs. \<forall>s. ?f c s = Some (?g c s)"
          by (auto simp: Suc.IH split: prod.splits)
        then have "fold (\<lambda>child acc. case acc of None \<Rightarrow> None | Some s \<Rightarrow> ?f child s) cs (Some ([], [], i))
             = Some (fold ?g cs ([], [], i))"
          by (rule fold_opt_Some)
        then show ?thesis using True n nt Some unf unf2 by (simp add: fold_max_le)
      next
        case False
        then have 1: "\<exists>c\<in>set cs. \<forall>s. ?f c s = None" by (auto simp: Suc.IH split: prod.splits)
        have 2: "\<forall>c\<in>set cs. \<forall>s. ?f c s = Some (?g c s) \<or> ?f c s = None"
          by (auto simp: Suc.IH split: prod.splits)
        have "fold (\<lambda>child acc. case acc of None \<Rightarrow> None | Some s \<Rightarrow> ?f child s) cs (Some ([], [], i)) = None"
          using 2 1 by (rule fold_opt_fail)
        then show ?thesis using False n nt Some unf by (simp add: fold_max_le)
      qed
    qed
  qed
qed

lemma depth_nest: "depth (nest k) = Suc k"
  by (induction k) (simp_all add: elem_def)

lemma render_depth_nest: "render_depth (nest k) = Suc k"
  by (induction k) (simp_all add: elem_def truthy_def)

text \<open>
  C7, as stated, fails: none of the three traversals is bounded in depth. Whatever number
  of stack frames is available, there is a document (nested one level deeper) on which the
  traversal runs out of them.
\<close>

theorem traversal_depth_counterexample:
  "\<not> (\<exists>B. \<forall>t. extractFromNode_stk B t \<noteq> None) \<and>
   \<not> (\<exists>B. \<forall>t. traverse_stk B t ([], 0) \<noteq> None) \<and>
   \<not> (\<exists>B. \<forall>t. renderNode_stk B t 0 \<noteq> None)"
proof (intro conjI notI)
  assume "\<exists>B. \<forall>t. extractFromNode_stk B t \<noteq> None"
  then obtain B where "extractFromNode_stk B (nest B) \<noteq> None" by blast
  then show False by (simp add: extract_stk_eq depth_nest)
next
  assume "\<exists>B. \<forall>t. traverse_stk B t ([], 0) \<noteq> None"
  then obtain B where "traverse_stk B (nest B) ([], 0) \<noteq> None" by blast
  then show False by (simp add: traverse_stk_eq depth_nest)
next
  assume "\<exists>B. \<forall>t. renderNode_stk B t 0 \<noteq> None"
  then obtain B where "renderNode_stk B (nest B) 0 \<noteq> None" by blast
  then show False by (simp add: renderNode_stk_eq render_depth_nest)
qed

text \<open>
  C7 (amended): every traversal of a content tree (plain-text projection, heading
  extraction, rendering) is a plain recursion over the tree. It terminates on every tree,
  with as many nested calls as the tree is deep: with \<open>d\<close> stack frames it returns its
  result when the depth of the tree is at most \<open>d\<close>, and overflows the stack otherwise.
  There is no explicit stack and no bound on the depth.
\<close>

theorem traversal_depth:
  "extractFromNode_stk d n = (if depth n \<le> d then Some (extractFromNode n) else None) \<and>
   traverse_stk d n st = (if depth n \<le> d then Some (traverse n st) else None) \<and>
   renderNode_stk d n i = (if render_depth n \<le> d then Some (renderNode n i) else None)"
  by (simp only: extract_stk_eq traverse_stk_eq renderNode_stk_eq simp_thms)

theorem traversal_depth_witness:
  "extractFromNode_stk 3 (nest 2) = Some [] \<and> extractFromNode_stk 2 (nest 2) = None"
proof -
  have d: "depth (nest 2) = 3" by (simp add: depth_nest)
  have v: "extractFromNode (nest 2) = []"
    by (simp add: numeral_2_eq_2 elem_def or_else_def is_block_def)
  from traversal_depth[of 3 "nest 2"] traversal_depth[of 2 "nest 2"] d v
  show ?thesis by simp
qed

section \<open>The page id of a route\<close>


lemma hex_run_take: "hex_run k s = Some r \<Longrightarrow> k \<le> length s \<and> r = drop k s"
  by (induction k s rule: hex_run.induct) (auto split: if_splits)

lemma hex_groups_dash:
  assumes a: "hex_groups (8 # k # ks) s"
  shows "8 < length s \<and> s ! 8 = CHR ''-''"
proof -
  from a obtain r where r: "hex_run 8 s = Some r" by (auto split: option.splits)
  then have d: "8 \<le> length s" "r = drop 8 s" using hex_run_take by blast+
  from a r obtain r' where "r = CHR ''-'' # r'" by (auto split: list.splits)
  then have e: "drop 8 s = CHR ''-'' # r'" using d by simp
  then have l: "8 < length s" by (cases "8 < length s") auto
  from Cons_nth_drop_Suc[OF l] have "drop 8 s = s ! 8 # drop (Suc 8) s" by (rule sym)
  then show ?thesis using e l by simp
qed

text \<open>
  Whenever the route parameter starts with a UUID, the two components compute different
  page ids: the id of \<open>PageView\<close> contains a dash and the one of \<open>PageTree\<close> does not.
\<close>

lemma page_ids_differ_on_uuid:
  assumes "match_uuid s = Some u"
  shows "pageId (Some s) = Some u \<and> currentPageId (Some s) \<noteq> Some u"
proof -
  have g: "hex_groups [8, 4, 4, 4, 12] s" and u: "u = take 36 s"
    using assms by (auto simp: match_uuid_def split: if_splits)
  have s8: "8 < length s" "s ! 8 = CHR ''-''" using hex_groups_dash[OF g] by simp_all
  then have ne: "s \<noteq> []" by auto
  have "8 < length u" "u ! 8 = CHR ''-''" using s8 u by simp_all
  then have "CHR ''-'' \<in> set u" by (metis nth_mem)
  moreover have "CHR ''-'' \<notin> set (split_first s)"
    by (auto simp: split_first_def dest: set_takeWhileD)
  ultimately have "split_first s \<noteq> u" by auto
  then show ?thesis using assms ne
    by (simp add: pageId_def currentPageId_def truthy_def or_else_def)
qed

text \<open>The two agree on a route parameter that does not start with a UUID.\<close>

lemma page_ids_agree_without_uuid:
  "match_uuid (or_else p []) = None \<Longrightarrow> pageId p = currentPageId p"
  by (simp add: pageId_def currentPageId_def)

lemma match_uuid_route: "match_uuid ''123e4567-e89b-12d3-a456-426614174000-intro'' = Some ''123e4567-e89b-12d3-a456-426614174000''"
  by code_simp

lemma split_first_route: "split_first ''123e4567-e89b-12d3-a456-426614174000-intro'' = ''123e4567''"
  by (simp add: split_first_def)

text \<open>
  C10 at the route of a page whose id is a UUID: \<open>PageView\<close> identifies the page by the
  whole UUID, \<open>PageTree\<close> by its first eight characters, so the two components do not
  identify the same page.
\<close>

theorem page_ids_uuid_route:
  "pageId (Some ''123e4567-e89b-12d3-a456-426614174000-intro'')
     = Some ''123e4567-e89b-12d3-a456-426614174000'' \<and>
   currentPageId (Some ''123e4567-e89b-12d3-a456-426614174000-intro'') = Some ''123e4567''"
  by (simp add: pageId_def currentPageId_def match_uuid_route split_first_route truthy_def or_else_def)


section \<open>The structure of the page tree\<close>


lemma create_dom:
  "dom (fold create_object xs m) = dom m \<union> {node_id n | n. n \<in> set xs \<and> is_page n}"
  by (induction xs arbitrary: m) (auto simp: create_object_def is_page_def)

lemma create_children:
  "(\<And>i ob. m i = Some ob \<Longrightarrow> children ob = []) \<Longrightarrow>
   fold create_object xs m i = Some ob \<Longrightarrow> children ob = []"
proof (induction xs arbitrary: m)
  case Nil
  then show ?case by simp
next
  case (Cons x xs)
  have "\<And>i ob. create_object x m i = Some ob \<Longrightarrow> children ob = []"
    using Cons.prems(1) by (auto simp: create_object_def new_object_def split: if_splits)
  then show ?case using Cons.IH[of "create_object x m"] Cons.prems(2) by simp
qed

lemma push_children_append: "push_children b (push_children a ob) = push_children (a @ b) ob"
  by (simp add: push_children_def)

lemma push_children_Nil: "push_children [] ob = ob"
  by (simp add: push_children_def)

lemma map_push_Nil: "map_option (push_children []) v = v"
  by (cases v) (simp_all add: push_children_Nil)

text \<open>One step of the second loop, and the whole loop, in closed form.\<close>

lemma link_step:
  "link_object x (m, rs) =
     ((\<lambda>p. map_option (push_children (if attach_child (dom m) p x then [node_id x] else [])) (m p)),
      rs @ (if attach_root (dom m) x then [node_id x] else []))"
  by (auto simp: link_object_def attach_root_def attach_child_def child_of_def is_page_def
      map_push_Nil fun_eq_iff dom_def split: option.splits)
     (simp_all add: push_children_def)

lemma link_fold:
  "fold link_object xs (m, rs) =
     ((\<lambda>p. map_option (push_children (map node_id (filter (attach_child (dom m) p) xs))) (m p)),
      rs @ map node_id (filter (attach_root (dom m)) xs))"
proof (induction xs arbitrary: m rs)
  case Nil
  show ?case by (simp add: map_push_Nil)
next
  case (Cons x xs)
  let ?m1 = "\<lambda>p. map_option (push_children (if attach_child (dom m) p x then [node_id x] else [])) (m p)"
  have d: "dom ?m1 = dom m" by (auto simp: dom_def)
  show ?case
    by (simp add: link_step Cons.IH d option.map_comp comp_def push_children_append fun_eq_iff)
qed


lemma create_page_ids: "dom (fold create_object nodes Map.empty) = page_node_ids nodes"
  by (auto simp: create_dom page_node_ids_def)

lemma create_children_empty:
  "fold create_object nodes Map.empty i = Some ob \<Longrightarrow> children ob = []"
  by (rule create_children[of Map.empty]) simp_all

lemma attach_root_iff:
  "n \<in> set nodes \<Longrightarrow>
   attach_root (page_node_ids nodes) n \<longleftrightarrow> is_page n \<and> \<not> has_parent_in nodes n"
  by (auto simp: attach_root_def has_parent_in_def page_node_ids_def image_iff)

lemma attach_child_iff:
  "n \<in> set nodes \<Longrightarrow> attach_child (page_node_ids nodes) p n \<longleftrightarrow> is_page n \<and> child_of p n"
  by (auto simp: attach_child_def page_node_ids_def)

text \<open>The roots, the objects and the children arrays of the result.\<close>

lemma build_roots:
  "fst (buildTreeStructure nodes) =
     map node_id (filter (\<lambda>n. is_page n \<and> \<not> has_parent_in nodes n) nodes)"
proof -
  have "filter (attach_root (page_node_ids nodes)) nodes =
        filter (\<lambda>n. is_page n \<and> \<not> has_parent_in nodes n) nodes"
    by (rule filter_cong[OF refl]) (simp add: attach_root_iff)
  then show ?thesis
    by (simp add: buildTreeStructure_def link_fold create_page_ids)
qed

lemma build_dom: "dom (snd (buildTreeStructure nodes)) = page_node_ids nodes"
  by (auto simp: buildTreeStructure_def link_fold create_page_ids[symmetric] dom_def)

lemma build_children:
  "children_of (buildTreeStructure nodes) p =
     (if p \<in> page_node_ids nodes
      then map node_id (filter (\<lambda>n. is_page n \<and> child_of p n) nodes) else [])"
proof -
  let ?m0 = "fold create_object nodes Map.empty"
  have f: "filter (attach_child (page_node_ids nodes) p) nodes =
        filter (\<lambda>n. is_page n \<and> child_of p n) nodes"
    by (rule filter_cong[OF refl]) (simp add: attach_child_iff)
  show ?thesis
  proof (cases "?m0 p")
    case None
    then have "p \<notin> dom ?m0" by (simp add: dom_def)
    then have "p \<notin> page_node_ids nodes" by (simp add: create_page_ids)
    then show ?thesis using None
      by (simp add: children_of_def buildTreeStructure_def link_fold)
  next
    case (Some ob)
    then have "p \<in> dom ?m0" by (simp add: dom_def)
    then have "p \<in> page_node_ids nodes" by (simp add: create_page_ids)
    moreover have "children ob = []" using Some by (rule create_children_empty)
    ultimately show ?thesis using Some
      by (simp add: children_of_def buildTreeStructure_def link_fold create_page_ids f
          push_children_def)
  qed
qed

lemma rooted_in_forest: "rooted nodes n \<Longrightarrow> in_forest (buildTreeStructure nodes) (node_id n)"
proof (induction rule: rooted.induct)
  case (top n)
  then have "node_id n \<in> set (fst (buildTreeStructure nodes))"
    by (auto simp: build_roots)
  then show ?case by (rule in_forest.root)
next
  case (below n p)
  have "rooted nodes p \<Longrightarrow> p \<in> set nodes \<and> is_page p" for p
    by (induction rule: rooted.induct) simp_all
  then have p: "p \<in> set nodes" "is_page p" using below.hyps(4) by simp_all
  then have "node_id p \<in> page_node_ids nodes" by (auto simp: page_node_ids_def)
  then have "node_id n \<in> set (children_of (buildTreeStructure nodes) (node_id p))"
    using below.hyps(1,2,3,5) by (auto simp: build_children child_of_def)
  with below.IH show ?case by (rule in_forest.child)
qed

lemma distinct_page_filter:
  assumes "distinct (map node_id (filter is_page nodes))"
  shows "distinct (map node_id (filter (\<lambda>n. is_page n \<and> P n) nodes))"
proof -
  have "filter (\<lambda>n. is_page n \<and> P n) nodes = filter P (filter is_page nodes)"
    by (simp add: conj_commute)
  then show ?thesis using distinct_map_filter[OF assms, of P] by simp
qed

lemma page_filter_member:
  assumes "distinct (map node_id (filter is_page nodes))" "n \<in> set nodes" "is_page n"
  shows "node_id n \<in> set (map node_id (filter (\<lambda>n. is_page n \<and> P n) nodes)) \<longleftrightarrow> P n"
proof
  assume "node_id n \<in> set (map node_id (filter (\<lambda>n. is_page n \<and> P n) nodes))"
  then obtain n' where n': "n' \<in> set nodes" "is_page n'" "P n'" "node_id n' = node_id n" by auto
  have "inj_on node_id (set (filter is_page nodes))"
    using assms(1) by (simp add: distinct_map)
  then have "n' = n" using n' assms(2,3) by (auto dest: inj_onD)
  then show "P n" using n' by simp
next
  assume "P n"
  then show "node_id n \<in> set (map node_id (filter (\<lambda>n. is_page n \<and> P n) nodes))"
    using assms(2,3) by auto
qed

lemma distinct_count_list:
  "distinct xs \<Longrightarrow> count_list xs x = (if x \<in> set xs then 1 else 0)"
  by (induction xs) auto

lemma page_filter_count:
  assumes "distinct (map node_id (filter is_page nodes))" "n \<in> set nodes" "is_page n"
  shows "count_list (map node_id (filter (\<lambda>n. is_page n \<and> P n) nodes)) (node_id n)
           = (if P n then 1 else 0)"
  using distinct_page_filter[OF assms(1), of P] page_filter_member[OF assms, of P]
  by (simp add: distinct_count_list)


lemma has_parent_child_of:
  "has_parent_in nodes n \<and> p = or_else (parent_id n) [] \<longleftrightarrow>
   p \<in> page_node_ids nodes \<and> child_of p n"
  by (auto simp: has_parent_in_def child_of_def page_node_ids_def image_iff)

text \<open>
  C8, as stated, fails: a node that names itself as its parent is pushed to its own
  children and not to the roots, so the tree that is returned is empty and the node is not
  in it.
\<close>

theorem tree_structure_counterexample:
  "is_page (mk_node ''a'' (Some ''p1'') (Some ''a'') 1024) \<and>
   fst (buildTreeStructure [mk_node ''a'' (Some ''p1'') (Some ''a'') 1024]) = [] \<and>
   \<not> in_forest (buildTreeStructure [mk_node ''a'' (Some ''p1'') (Some ''a'') 1024]) ''a''"
proof -
  let ?x = "mk_node ''a'' (Some ''p1'') (Some ''a'') 1024"
  have p: "is_page ?x" by (simp add: is_page_def mk_node_def truthy_def)
  have r: "fst (buildTreeStructure [?x]) = []"
    by (simp add: build_roots has_parent_in_def is_page_def mk_node_def truthy_def or_else_def)
  have "in_forest (buildTreeStructure [?x]) i \<Longrightarrow> False" for i
    by (induction rule: in_forest.induct) (simp_all add: r)
  then show ?thesis using p r by blast
qed

text \<open>
  C8 (amended): for every flat list of tree nodes, the roots that \<open>buildTreeStructure\<close>
  returns are, in the order of the list, the non-sentinel nodes whose \<open>parent_id\<close> is empty
  or names no non-sentinel node of the list, and the children of the object of a
  non-sentinel node are, in the order of the list, the non-sentinel nodes whose
  \<open>parent_id\<close> is its id (nothing is sorted by position); sentinel nodes get no object.
  When the ids of the non-sentinel nodes are pairwise distinct, every such node is attached
  exactly once: to the children of its parent when it has one in the list, to the roots
  otherwise. A node whose chain of parents ends at a root is part of the returned tree.
\<close>

theorem tree_structure:
  "fst (buildTreeStructure nodes) =
     map node_id (filter (\<lambda>n. is_page n \<and> \<not> has_parent_in nodes n) nodes) \<and>
   (\<forall>p. children_of (buildTreeStructure nodes) p =
     (if p \<in> page_node_ids nodes
      then map node_id (filter (\<lambda>n. is_page n \<and> child_of p n) nodes) else [])) \<and>
   dom (snd (buildTreeStructure nodes)) = page_node_ids nodes \<and>
   (distinct (map node_id (filter is_page nodes)) \<longrightarrow>
     (\<forall>n\<in>set nodes. is_page n \<longrightarrow>
        count_list (fst (buildTreeStructure nodes)) (node_id n)
          = (if has_parent_in nodes n then 0 else 1) \<and>
        (\<forall>p. count_list (children_of (buildTreeStructure nodes) p) (node_id n)
          = (if has_parent_in nodes n \<and> p = or_else (parent_id n) [] then 1 else 0)))) \<and>
   (\<forall>n. rooted nodes n \<longrightarrow> in_forest (buildTreeStructure nodes) (node_id n))"
proof (intro conjI allI impI ballI)
  show "fst (buildTreeStructure nodes) =
     map node_id (filter (\<lambda>n. is_page n \<and> \<not> has_parent_in nodes n) nodes)"
    by (rule build_roots)
  show "children_of (buildTreeStructure nodes) p =
     (if p \<in> page_node_ids nodes
      then map node_id (filter (\<lambda>n. is_page n \<and> child_of p n) nodes) else [])" for p
    by (rule build_children)
  show "dom (snd (buildTreeStructure nodes)) = page_node_ids nodes"
    by (rule build_dom)
  show "in_forest (buildTreeStructure nodes) (node_id n)" if "rooted nodes n" for n
    using that by (rule rooted_in_forest)
next
  fix n
  assume d: "distinct (map node_id (filter is_page nodes))" and n: "n \<in> set nodes" "is_page n"
  show "count_list (fst (buildTreeStructure nodes)) (node_id n)
          = (if has_parent_in nodes n then 0 else 1)"
    by (simp add: build_roots page_filter_count[OF d n])
  show "count_list (children_of (buildTreeStructure nodes) p) (node_id n)
          = (if has_parent_in nodes n \<and> p = or_else (parent_id n) [] then 1 else 0)" for p
    by (simp add: build_children page_filter_count[OF d n] has_parent_child_of)
qed

theorem tree_structure_witness:
  "distinct (map node_id (filter is_page
      [mk_node ''r'' None None 0, mk_node ''a'' (Some ''pa'') (Some ''r'') 2048,
       mk_node ''b'' (Some ''pb'') (Some ''a'') 1024, mk_node ''c'' (Some ''pc'') None 1024])) \<and>
   rooted [mk_node ''r'' None None 0, mk_node ''a'' (Some ''pa'') (Some ''r'') 2048,
       mk_node ''b'' (Some ''pb'') (Some ''a'') 1024, mk_node ''c'' (Some ''pc'') None 1024]
      (mk_node ''b'' (Some ''pb'') (Some ''a'') 1024) \<and>
   fst (buildTreeStructure
      [mk_node ''r'' None None 0, mk_node ''a'' (Some ''pa'') (Some ''r'') 2048,
       mk_node ''b'' (Some ''pb'') (Some ''a'') 1024, mk_node ''c'' (Some ''pc'') None 1024])
     = [''a'', ''c''] \<and>
   children_of (buildTreeStructure
      [mk_node ''r'' None None 0, mk_node ''a'' (Some ''pa'') (Some ''r'') 2048,
       mk_node ''b'' (Some ''pb'') (Some ''a'') 1024, mk_node ''c'' (Some ''pc'') None 1024]) ''a''
     = [''b''] \<and>
   count_list (fst (buildTreeStructure
      [mk_node ''r'' None None 0, mk_node ''a'' (Some ''pa'') (Some ''r'') 2048,
       mk_node ''b'' (Some ''pb'') (Some ''a'') 1024, mk_node ''c'' (Some ''pc'') None 1024]))
      ''b'' = 0 \<and>
   in_forest (buildTreeStructure
      [mk_node ''r'' None None 0, mk_node ''a'' (Some ''pa'') (Some ''r'') 2048,
       mk_node ''b'' (Some ''pb'') (Some ''a'') 1024, mk_node ''c'' (Some ''pc'') None 1024]) ''b''"
proof -
  let ?r = "mk_node ''r'' None None 0"
  let ?a = "mk_node ''a'' (Some ''pa'') (Some ''r'') 2048"
  let ?b = "mk_node ''b'' (Some ''pb'') (Some ''a'') 1024"
  let ?c = "mk_node ''c'' (Some ''pc'') None 1024"
  let ?ns = "[?r, ?a, ?b, ?c]"
  have pg: "\<not> is_page ?r" "is_page ?a" "is_page ?b" "is_page ?c"
    by (simp_all add: is_page_def mk_node_def truthy_def)
  have ids: "node_id ?r = ''r''" "node_id ?a = ''a''" "node_id ?b = ''b''" "node_id ?c = ''c''"
    by (simp_all add: mk_node_def)
  have par: "\<not> has_parent_in ?ns ?a" "has_parent_in ?ns ?b" "\<not> has_parent_in ?ns ?c"
    by (simp_all add: has_parent_in_def pg ids) (simp_all add: mk_node_def truthy_def or_else_def)
  have d: "distinct (map node_id (filter is_page ?ns))" by (simp add: pg ids)
  have ra: "rooted ?ns ?a" by (rule rooted.top) (simp_all add: pg par)
  have rb: "rooted ?ns ?b"
    by (rule rooted.below[OF _ _ _ ra]) (simp_all add: pg ids, simp_all add: mk_node_def truthy_def or_else_def)
  have ch: "child_of ''a'' ?b" "\<not> child_of ''a'' ?a" "\<not> child_of ''a'' ?c"
    by (simp_all add: child_of_def mk_node_def truthy_def or_else_def)
  have pa: "''a'' \<in> page_node_ids ?ns" by (simp add: page_node_ids_def pg ids)
  note t = tree_structure[of ?ns]
  note t1 = t[THEN conjunct1]
  note t2 = t[THEN conjunct2, THEN conjunct1, rule_format]
  note t4 = t[THEN conjunct2, THEN conjunct2, THEN conjunct2, THEN conjunct1, rule_format]
  note t5 = t[THEN conjunct2, THEN conjunct2, THEN conjunct2, THEN conjunct2, rule_format]
  have 1: "fst (buildTreeStructure ?ns) = [''a'', ''c'']"
    using t1 by (simp add: pg par ids)
  have 2: "children_of (buildTreeStructure ?ns) ''a'' = [''b'']"
    using t2[of "''a''"] pa by (simp add: pg ch ids)
  have "?b \<in> set ?ns" by simp
  from t4[OF d this pg(3), THEN conjunct1]
  have 3: "count_list (fst (buildTreeStructure ?ns)) ''b'' = 0"
    using par(2) ids(3) by simp
  have 4: "in_forest (buildTreeStructure ?ns) ''b''"
    using t5[OF rb] ids(3) by simp
  from d rb 1 2 3 4 show ?thesis by blast
qed


section \<open>Draft writes and autosave\<close>


text \<open>The decimal rendering of a number determines the number.\<close>

lemma digit_char_inj: "a < 10 \<Longrightarrow> b < 10 \<Longrightarrow> digit_char a = digit_char b \<Longrightarrow> a = b"
proof -
  assume a: "a < 10" and b: "b < 10" and e: "digit_char a = digit_char b"
  have d: "distinct ''0123456789''" by simp
  have "a < length ''0123456789''" "b < length ''0123456789''" using a b by simp_all
  then show "a = b" using e d unfolding digit_char_def by (simp only: nth_eq_iff_index_eq)
qed

lemma show_nat_nonempty: "show_nat n \<noteq> []"
  by (subst show_nat.simps) simp

lemma show_nat_inj: "show_nat m = show_nat n \<Longrightarrow> m = n"
proof (induction m arbitrary: n rule: show_nat.induct)
  case (1 m)
  show ?case
  proof (cases "m < 10")
    case True
    then have m: "show_nat m = [digit_char m]" by (simp add: show_nat.simps)
    show ?thesis
    proof (cases "n < 10")
      case n: True
      then have "show_nat n = [digit_char n]" by (simp add: show_nat.simps)
      then show ?thesis using m "1.prems" True n by (simp add: digit_char_inj)
    next
      case False
      then have "show_nat n = show_nat (n div 10) @ [digit_char (n mod 10)]"
        by (simp add: show_nat.simps)
      then show ?thesis using m "1.prems" show_nat_nonempty[of "n div 10"] by simp
    qed
  next
    case False
    then have m: "show_nat m = show_nat (m div 10) @ [digit_char (m mod 10)]"
      by (simp add: show_nat.simps)
    show ?thesis
    proof (cases "n < 10")
      case True
      then have "show_nat n = [digit_char n]" by (simp add: show_nat.simps)
      then show ?thesis using m "1.prems" show_nat_nonempty[of "m div 10"] by simp
    next
      case n: False
      then have "show_nat n = show_nat (n div 10) @ [digit_char (n mod 10)]"
        by (simp add: show_nat.simps)
      then have "show_nat (m div 10) = show_nat (n div 10)"
          "digit_char (m mod 10) = digit_char (n mod 10)"
        using m "1.prems" by simp_all
      then have "m div 10 = n div 10" "m mod 10 = n mod 10"
        using "1.IH"[OF False] by (simp_all add: digit_char_inj)
      then show ?thesis by (metis div_mult_mod_eq)
    qed
  qed
qed

text \<open>The token of a draft is never empty, and it changes with the counter.\<close>

lemma draft_token_truthy: "truthy (Some (draft_token p))"
  by (simp add: truthy_def draft_token_def)

lemma draft_token_changes:
  "pg_draft_rev p' = Suc (pg_draft_rev p) \<Longrightarrow> draft_token p' \<noteq> draft_token p"
  by (auto simp: draft_token_def dest: show_nat_inj)

lemma write_draft_stale:
  "supplied = Some t \<Longrightarrow> t \<noteq> draft_token p \<Longrightarrow>
   write_draft p supplied c txt = (Inl (Conflict (draft_token p)), p)"
  by (simp add: write_draft_def)

lemma write_draft_current:
  "supplied = None \<or> supplied = Some (draft_token p) \<Longrightarrow>
   \<exists>r p'. write_draft p supplied c txt = (Inr r, p') \<and> draft_etag r = draft_token p' \<and>
     draft_token p' \<noteq> draft_token p \<and> pg_draft_json p' = Some c \<and> pg_draft_text p' = txt \<and>
     pg_versions p' = pg_versions p"
  by (auto simp: write_draft_def Let_def draft_token_changes)


lemma draft_request_of_host:
  "host s' = host s \<Longrightarrow> draft_request_of opts c s' = draft_request_of opts c s"
  by (simp add: draft_request_of_def)

lemma header_of_request:
  "header_if_match (draft_request_of opts c s) =
     (if truthy (opt_etag opts (host s)) then opt_etag opts (host s) else None)"
  by (simp add: draft_request_of_def updateDraft_def)

lemma put_draft_stale:
  assumes "header_if_match req = Some t" "t \<noteq> draft_token p"
  shows "put_draft req p =
     (Rejected (Some 409) (Some (draft_token p)) (Some ''Request failed with status code 409''), p)"
  using assms by (simp add: put_draft_def write_draft_def)

lemma put_draft_current:
  assumes "header_if_match req = None \<or> header_if_match req = Some (draft_token p)"
  shows "put_draft req p =
     (Resolved \<lparr>draft_json = req_draft_json req, draft_text = req_draft_text req,
                draft_etag = draft_token (p\<lparr>pg_draft_json := Some (req_draft_json req),
                   pg_draft_text := req_draft_text req, pg_draft_rev := Suc (pg_draft_rev p)\<rparr>)\<rparr>,
      p\<lparr>pg_draft_json := Some (req_draft_json req),
                   pg_draft_text := req_draft_text req, pg_draft_rev := Suc (pg_draft_rev p)\<rparr>)"
  using assms by (auto simp: put_draft_def write_draft_def Let_def)

text \<open>\<open>saveDraft\<close> when none of its early returns is taken: the request is sent.\<close>

lemma saveDraft_sends:
  assumes "truthy (opt_pageId opts (host s))" "\<not> isSaving s"
      "opt_content opts (host s) = Some c" "force \<or> Some c \<noteq> lastSavedContent s"
  shows "saveDraft opts send now force (srv, s) =
     (case send (draft_request_of opts c s) srv of
        (Resolved response, srv') \<Rightarrow>
          (srv', (save_resolved opts now c response (s\<lparr>isSaving := True, saveError := None\<rparr>))
                   \<lparr>isSaving := False\<rparr>)
      | (Rejected st tok msg, srv') \<Rightarrow>
          (srv', (save_rejected opts st tok msg (s\<lparr>isSaving := True, saveError := None\<rparr>))
                   \<lparr>isSaving := False\<rparr>))"
proof -
  have "draft_request_of opts c (s\<lparr>isSaving := True, saveError := None\<rparr>) = draft_request_of opts c s"
    by (rule draft_request_of_host) simp
  then show ?thesis using assms by (auto simp: saveDraft_def Let_def)
qed

text \<open>
  C1: a draft write whose supplied token does not match the stored token fails with
  \<open>Conflict\<close>, leaves the stored draft as it is, and is answered with status 409 and the
  current token. An autosave that sends such a write (none of the early returns of
  \<open>saveDraft\<close> is taken, and the client holds a non-empty token that is not the stored one)
  passes exactly that current token to its conflict callback and does not record the
  content as saved: \<open>lastSavedContent\<close>, \<open>lastSaved\<close> and \<open>hasUnsavedChanges\<close> are unchanged,
  so \<open>hasUnsavedChanges\<close> stays true.
\<close>

theorem stale_draft_write:
  assumes "truthy (opt_pageId opts (host s))" and "\<not> isSaving s"
      and "opt_content opts (host s) = Some c" and "force \<or> Some c \<noteq> lastSavedContent s"
      and "opt_etag opts (host s) = Some t" and "t \<noteq> []" and "t \<noteq> draft_token p"
      and "onConflict opts = Some f"
  shows "write_draft p (Some t) c (extractPlainText (Some c)) = (Inl (Conflict (draft_token p)), p) \<and>
         status (fst (put_draft (draft_request_of opts c s) p)) = Some 409 \<and>
         etag_header (fst (put_draft (draft_request_of opts c s) p)) = Some (draft_token p) \<and>
         fst (saveDraft opts put_draft now force (p, s)) = p \<and>
         host (snd (saveDraft opts put_draft now force (p, s))) = f (draft_token p) (host s) \<and>
         lastSavedContent (snd (saveDraft opts put_draft now force (p, s))) = lastSavedContent s \<and>
         lastSaved (snd (saveDraft opts put_draft now force (p, s))) = lastSaved s \<and>
         hasUnsavedChanges (snd (saveDraft opts put_draft now force (p, s))) = hasUnsavedChanges s"
proof -
  have h: "header_if_match (draft_request_of opts c s) = Some t"
    using assms(5,6) by (simp add: header_of_request truthy_def)
  note pd = put_draft_stale[OF h assms(7)]
  have sd: "saveDraft opts put_draft now force (p, s) =
      (p, (save_rejected opts (Some 409) (Some (draft_token p))
             (Some ''Request failed with status code 409'')
             (s\<lparr>isSaving := True, saveError := None\<rparr>))\<lparr>isSaving := False\<rparr>)"
    by (simp add: saveDraft_sends[OF assms(1-4)] pd)
  have tk: "truthy (Some (draft_token p))" by (rule draft_token_truthy)
  show ?thesis
    using assms(7) assms(8) tk
    by (simp add: write_draft_def pd sd save_rejected_def Let_def or_else_def truthy_def)
qed

text \<open>
  C3: a draft write that succeeds (the token the client of \<open>PageView\<close> holds is absent or
  is the stored one) issues a token different from the stored one and returns it as
  \<open>draft_etag\<close>; the client replaces its stored token with it, so the request of the next
  autosave, whatever its content \<open>c'\<close>, supplies the freshly issued token.
\<close>

theorem draft_write_new_token:
  assumes "truthy (pageId (pageIdSlug (host s)))" and "\<not> isSaving s"
      and "draftContent (host s) = Some c" and "force \<or> Some c \<noteq> lastSavedContent s"
      and "\<not> truthy (currentEtag (host s)) \<or> currentEtag (host s) = Some (draft_token p)"
  shows "draft_token (fst (saveDraft pageview_options put_draft now force (p, s))) \<noteq> draft_token p \<and>
         fst (put_draft (draft_request_of pageview_options c s) p) =
           Resolved \<lparr>draft_json = c, draft_text = extractPlainText (Some c),
             draft_etag = draft_token (fst (saveDraft pageview_options put_draft now force (p, s)))\<rparr> \<and>
         pg_draft_json (fst (saveDraft pageview_options put_draft now force (p, s))) = Some c \<and>
         currentEtag (host (snd (saveDraft pageview_options put_draft now force (p, s))))
           = Some (draft_token (fst (saveDraft pageview_options put_draft now force (p, s)))) \<and>
         header_if_match (draft_request_of pageview_options c'
            (snd (saveDraft pageview_options put_draft now force (p, s))))
           = Some (draft_token (fst (saveDraft pageview_options put_draft now force (p, s))))"
proof -
  let ?o = pageview_options
  let ?req = "draft_request_of ?o c s"
  let ?p' = "p\<lparr>pg_draft_json := Some c, pg_draft_text := extractPlainText (Some c),
                pg_draft_rev := Suc (pg_draft_rev p)\<rparr>"
  have o: "opt_pageId ?o (host s) = pageId (pageIdSlug (host s))"
      "opt_content ?o (host s) = draftContent (host s)" "opt_etag ?o = currentEtag"
    by (simp_all add: pageview_options_def)
  have body: "req_draft_json ?req = c" "req_draft_text ?req = extractPlainText (Some c)"
    by (simp_all add: draft_request_of_def updateDraft_def)
  have h: "header_if_match ?req = None \<or> header_if_match ?req = Some (draft_token p)"
    using assms(5) by (auto simp: header_of_request o)
  have pd: "put_draft ?req p =
      (Resolved \<lparr>draft_json = c, draft_text = extractPlainText (Some c), draft_etag = draft_token ?p'\<rparr>, ?p')"
    using put_draft_current[OF h] by (simp add: body)
  have se: "saveDraft ?o put_draft now force (p, s) =
      (?p', (save_resolved ?o now c
               \<lparr>draft_json = c, draft_text = extractPlainText (Some c), draft_etag = draft_token ?p'\<rparr>
               (s\<lparr>isSaving := True, saveError := None\<rparr>))\<lparr>isSaving := False\<rparr>)"
    using assms(1-4) by (simp add: saveDraft_sends o pd)
  have oe: "onEtagUpdate ?o = Some (\<lambda>newEtag h. h\<lparr>currentEtag := Some newEtag\<rparr>)"
    by (simp add: pageview_options_def)
  have ne: "draft_token ?p' \<noteq> draft_token p" by (rule draft_token_changes) simp
  have tk: "draft_token ?p' \<noteq> []" by (simp add: draft_token_def)
  have ce: "currentEtag (host (snd (saveDraft ?o put_draft now force (p, s)))) = Some (draft_token ?p')"
    using tk by (simp add: se save_resolved_def oe)
  show ?thesis
    using ne tk ce by (simp add: se pd header_of_request o truthy_def)
qed


section \<open>Moves in the tree\<close>



















text \<open>The position the drop handler submits.\<close>

lemma drop_position:
  "mv_position (drop_request d ev) =
     (case dropNode ev of Some t \<Rightarrow> 1024 | None \<Rightarrow> (dropIndex ev + 1) * 1024)"
  by (simp add: drop_request_def drop_target_def split: option.splits)

text \<open>
  C2 at a drop between two root siblings at positions 1024 and 2048 (root index 1): the
  handler submits \<open>(1 + 1) * 1024 = 2048\<close>, the position of the second sibling, where the
  midpoint rule gives 1536.
\<close>

theorem drop_between_siblings:
  "mv_parent_id (drop_request d \<lparr>dropNode = None, dropIndex = 1\<rparr>) = None \<and>
   mv_position (drop_request d \<lparr>dropNode = None, dropIndex = 1\<rparr>) = 2048 \<and>
   allocate_position (Between 1024 2048) = 1536"
  by (simp add: drop_request_def drop_target_def allocate_position_def)

text \<open>
  A node dropped onto a parent is submitted at 1024 whatever children the parent has; the
  handler agrees with the allocation rule at an empty root.
\<close>

lemma drop_onto_parent_with_children:
  "mv_position (drop_request d \<lparr>dropNode = Some t, dropIndex = i\<rparr>) = 1024 \<and>
   allocate_position (AfterLast 2048) = 3072"
  by (simp add: drop_request_def drop_target_def allocate_position_def GAP_def)

lemma drop_into_empty:
  "mv_position (drop_request d \<lparr>dropNode = None, dropIndex = 0\<rparr>) = allocate_position EmptyParent"
  by (simp add: drop_request_def drop_target_def allocate_position_def GAP_def)


section \<open>Autosave at concrete states\<close>


lemma pageId_example: "pageId (Some ''p1-intro'') = Some ''p1''"
proof -
  have "match_uuid ''p1-intro'' = None" by code_simp
  then show ?thesis by (simp add: pageId_def truthy_def or_else_def split_first_def)
qed

lemma token_examples: "draft_token (example_page s 3) = ''v3''"
  by (simp add: draft_token_def example_page_def show_nat.simps digit_char_def)

lemma example_view_fields:
  "pageIdSlug (example_view a b) = Some ''p1-intro''"
  "draftContent (example_view a b) = Some (doc_of a)"
  "currentEtag (example_view a b) = Some b"
  "editorRef (example_view a b)"
  "loaded_title (example_view a b) = Some ''Intro''"
  "editTitle (example_view a b) = ''Intro''"
  "publishNotes (example_view a b) = []"
  by (simp_all add: example_view_def)

lemma example_host: "host (debouncedSave (init_autosave h)) = h"
  "\<not> isSaving (debouncedSave (init_autosave h))"
  "lastSavedContent (debouncedSave (init_autosave h)) = None"
  "lastSaved (debouncedSave (init_autosave h)) = None"
  "hasUnsavedChanges (debouncedSave (init_autosave h))"
  by (simp_all add: debouncedSave_def init_autosave_def)

text \<open>A stale autosave from \<open>PageView\<close>: the conflict dialog gets the current token.\<close>

theorem stale_draft_write_witness:
  "fst (saveDraft pageview_options put_draft 7 False
         (example_page ''theirs'' 3, debouncedSave (init_autosave (example_view ''mine'' ''v2''))))
     = example_page ''theirs'' 3 \<and>
   conflictEtag (host (snd (saveDraft pageview_options put_draft 7 False
         (example_page ''theirs'' 3, debouncedSave (init_autosave (example_view ''mine'' ''v2''))))))
     = Some ''v3'' \<and>
   lastSavedContent (snd (saveDraft pageview_options put_draft 7 False
         (example_page ''theirs'' 3, debouncedSave (init_autosave (example_view ''mine'' ''v2'')))))
     = None \<and>
   hasUnsavedChanges (snd (saveDraft pageview_options put_draft 7 False
         (example_page ''theirs'' 3, debouncedSave (init_autosave (example_view ''mine'' ''v2'')))))
     = True"
proof -
  let ?p = "example_page ''theirs'' 3"
  let ?s = "debouncedSave (init_autosave (example_view ''mine'' ''v2''))"
  let ?f = "\<lambda>newEtag h. if editorRef h
              then h\<lparr>conflictEtag := Some newEtag, showConflictDialog := True\<rparr> else h"
  have hs: "host ?s = example_view ''mine'' ''v2''" by (simp add: example_host)
  have h1: "truthy (opt_pageId pageview_options (host ?s))"
    by (simp add: hs pageview_options_def example_view_fields pageId_example truthy_def)
  have h2: "\<not> isSaving ?s" by (simp add: example_host)
  have h3: "opt_content pageview_options (host ?s) = Some (doc_of ''mine'')"
    by (simp add: hs pageview_options_def example_view_fields)
  have h4: "False \<or> Some (doc_of ''mine'') \<noteq> lastSavedContent ?s"
    by (simp add: example_host)
  have h5: "opt_etag pageview_options (host ?s) = Some ''v2''"
    by (simp add: hs pageview_options_def example_view_fields)
  have h6: "''v2'' \<noteq> []" by simp
  have h7: "''v2'' \<noteq> draft_token ?p" by (simp add: token_examples)
  have h8: "onConflict pageview_options = Some ?f" by (simp add: pageview_options_def)
  note t = stale_draft_write[OF h1 h2 h3 h4 h5 h6 h7 h8, of 7]
  have a: "fst (saveDraft pageview_options put_draft 7 False (?p, ?s)) = ?p" using t by simp
  have b: "conflictEtag (host (snd (saveDraft pageview_options put_draft 7 False (?p, ?s)))) = Some ''v3''"
    using t by (simp add: hs example_view_fields token_examples)
  have c: "lastSavedContent (snd (saveDraft pageview_options put_draft 7 False (?p, ?s))) = None"
    using t by (simp add: example_host)
  have d: "hasUnsavedChanges (snd (saveDraft pageview_options put_draft 7 False (?p, ?s))) = True"
    using t by (simp add: example_host)
  from a b c d show ?thesis by blast
qed

text \<open>An accepted autosave from \<open>PageView\<close>: the token moves from \<open>v3\<close> to \<open>v4\<close>.\<close>

theorem draft_write_new_token_witness:
  "draft_token (fst (saveDraft pageview_options put_draft 7 False
         (example_page ''old'' 3, debouncedSave (init_autosave (example_view ''mine'' ''v3'')))))
     = ''v4'' \<and>
   pg_draft_json (fst (saveDraft pageview_options put_draft 7 False
         (example_page ''old'' 3, debouncedSave (init_autosave (example_view ''mine'' ''v3'')))))
     = Some (doc_of ''mine'') \<and>
   currentEtag (host (snd (saveDraft pageview_options put_draft 7 False
         (example_page ''old'' 3, debouncedSave (init_autosave (example_view ''mine'' ''v3''))))))
     = Some ''v4''"
proof -
  let ?p = "example_page ''old'' 3"
  let ?s = "debouncedSave (init_autosave (example_view ''mine'' ''v3''))"
  have hs: "host ?s = example_view ''mine'' ''v3''" by (simp add: example_host)
  have h1: "truthy (pageId (pageIdSlug (host ?s)))"
    by (simp add: hs example_view_fields pageId_example truthy_def)
  have h2: "\<not> isSaving ?s" by (simp add: example_host)
  have h3: "draftContent (host ?s) = Some (doc_of ''mine'')" by (simp add: hs example_view_fields)
  have h4: "False \<or> Some (doc_of ''mine'') \<noteq> lastSavedContent ?s"
    by (simp add: example_host)
  have h5: "\<not> truthy (currentEtag (host ?s)) \<or> currentEtag (host ?s) = Some (draft_token ?p)"
    by (simp add: hs example_view_fields token_examples)
  note t = draft_write_new_token[OF h1 h2 h3 h4 h5, of 7]
  let ?r = "saveDraft pageview_options put_draft 7 False (?p, ?s)"
  have ne: "draft_token (fst ?r) \<noteq> draft_token ?p"
    and js: "pg_draft_json (fst ?r) = Some (doc_of ''mine'')"
    and ce: "currentEtag (host (snd ?r)) = Some (draft_token (fst ?r))"
    using t by simp_all
  have pd: "fst (put_draft (draft_request_of pageview_options (doc_of ''mine'') ?s) ?p) =
      Resolved \<lparr>draft_json = doc_of ''mine'', draft_text = extractPlainText (Some (doc_of ''mine'')),
         draft_etag = draft_token (fst ?r)\<rparr>"
    using t by simp
  have "header_if_match (draft_request_of pageview_options (doc_of ''mine'') ?s) = Some ''v3''"
    by (simp add: header_of_request pageview_options_def hs example_view_fields truthy_def)
  then have "draft_etag (case fst (put_draft (draft_request_of pageview_options (doc_of ''mine'') ?s) ?p)
        of Resolved r \<Rightarrow> r) = ''v4''"
    by (simp add: put_draft_def write_draft_def token_examples Let_def draft_token_def
        example_page_def show_nat.simps digit_char_def)
  then have tk: "draft_token (fst ?r) = ''v4''" by (simp add: pd)
  from ne js ce tk show ?thesis by simp
qed


section \<open>Publishing\<close>


text \<open>
  The publish operation of the backend: every version is a snapshot of the draft at the
  moment of the call, and the version numbers of a page that is published \<open>N\<close> times are
  \<open>1..N\<close>, whatever draft writes come in between.
\<close>

lemma fold_max_upt: "fold max [Suc 0..<Suc k] 0 = k"
  by (induction k) (simp_all del: upt_Suc add: upt_Suc_append)

lemma publish_appends:
  "snd (publish nts p) = p\<lparr>pg_versions := pg_versions p @ [fst (publish nts p)]\<rparr> \<and>
   content_json (fst (publish nts p)) = pg_draft_json p \<and>
   content_text (fst (publish nts p)) = pg_draft_text p \<and>
   version_title (fst (publish nts p)) = pg_title p"
  by (simp add: publish_def Let_def)

lemma publish_number:
  assumes "map version_number (pg_versions p) = [1..<Suc (length (pg_versions p))]"
  shows "version_number (fst (publish nts p)) = Suc (length (pg_versions p)) \<and>
         map version_number (pg_versions (snd (publish nts p)))
           = [1..<Suc (length (pg_versions (snd (publish nts p))))]"
  using assms by (simp add: publish_def Let_def fold_max_upt upt_Suc_append del: upt_Suc)

lemma write_draft_versions: "pg_versions (snd (write_draft p t c x)) = pg_versions p"
  by (simp add: write_draft_def Let_def)

lemma versions_contiguous:
  assumes "map version_number (pg_versions p) = [1..<Suc (length (pg_versions p))]"
  shows "map version_number (pg_versions (fold apply_page_op ops p))
           = [1..<Suc (length (pg_versions p) + length (filter is_publish ops))]"
  using assms
proof (induction ops arbitrary: p)
  case Nil
  then show ?case by simp
next
  case (Cons op ops)
  show ?case
  proof (cases op)
    case (WriteDraft t c x)
    then show ?thesis using Cons.IH[of "snd (write_draft p t c x)"] Cons.prems
      by (simp add: write_draft_versions del: upt_Suc)
  next
    case (Publish nts)
    have l: "length (pg_versions (snd (publish nts p))) = Suc (length (pg_versions p))"
      by (simp add: publish_appends)
    show ?thesis
      using Cons.IH[of "snd (publish nts p)"] publish_number[OF Cons.prems, of nts] Publish
      by (simp add: l del: upt_Suc)
  qed
qed

text \<open>The state after a rejected and after an accepted save.\<close>

lemma saveDraft_conflict_state:
  assumes "truthy (opt_pageId opts (host s))" and "\<not> isSaving s"
      and "opt_content opts (host s) = Some c" and "force \<or> Some c \<noteq> lastSavedContent s"
      and "opt_etag opts (host s) = Some t" and "t \<noteq> []" and "t \<noteq> draft_token p"
      and "onConflict opts = Some f"
  shows "saveDraft opts put_draft now force (p, s) =
           (p, s\<lparr>saveError := Some ''Editing conflict detected'',
                 host := f (draft_token p) (host s)\<rparr>)"
proof -
  have h: "header_if_match (draft_request_of opts c s) = Some t"
    using assms(5,6) by (simp add: header_of_request truthy_def)
  have tk: "truthy (Some (draft_token p))" by (rule draft_token_truthy)
  show ?thesis
    using assms(2,8) tk
    by (simp add: saveDraft_sends[OF assms(1-4)] put_draft_stale[OF h assms(7)]
        save_rejected_def Let_def or_else_def truthy_def)
qed

lemma saveDraft_accepted_state:
  assumes "truthy (pageId (pageIdSlug (host s)))" and "\<not> isSaving s"
      and "draftContent (host s) = Some c" and "force \<or> Some c \<noteq> lastSavedContent s"
      and "\<not> truthy (currentEtag (host s)) \<or> currentEtag (host s) = Some (draft_token p)"
  shows "fst (saveDraft pageview_options put_draft now force (p, s)) =
           p\<lparr>pg_draft_json := Some c, pg_draft_text := extractPlainText (Some c),
             pg_draft_rev := Suc (pg_draft_rev p)\<rparr> \<and>
         host (snd (saveDraft pageview_options put_draft now force (p, s))) =
           (host s)\<lparr>currentEtag := Some (draft_token
              (p\<lparr>pg_draft_rev := Suc (pg_draft_rev p)\<rparr>))\<rparr> \<and>
         toasts (snd (saveDraft pageview_options put_draft now force (p, s))) = toasts s"
proof -
  let ?o = pageview_options
  let ?req = "draft_request_of ?o c s"
  let ?p' = "p\<lparr>pg_draft_json := Some c, pg_draft_text := extractPlainText (Some c),
                pg_draft_rev := Suc (pg_draft_rev p)\<rparr>"
  have o: "opt_pageId ?o (host s) = pageId (pageIdSlug (host s))"
      "opt_content ?o (host s) = draftContent (host s)" "opt_etag ?o = currentEtag"
      "onEtagUpdate ?o = Some (\<lambda>newEtag h. h\<lparr>currentEtag := Some newEtag\<rparr>)"
    by (simp_all add: pageview_options_def)
  have body: "req_draft_json ?req = c" "req_draft_text ?req = extractPlainText (Some c)"
    by (simp_all add: draft_request_of_def updateDraft_def)
  have h: "header_if_match ?req = None \<or> header_if_match ?req = Some (draft_token p)"
    using assms(5) by (auto simp: header_of_request o)
  have pd: "put_draft ?req p =
      (Resolved \<lparr>draft_json = c, draft_text = extractPlainText (Some c), draft_etag = draft_token ?p'\<rparr>, ?p')"
    using put_draft_current[OF h] by (simp add: body)
  have se: "saveDraft ?o put_draft now force (p, s) =
      (?p', (save_resolved ?o now c
               \<lparr>draft_json = c, draft_text = extractPlainText (Some c), draft_etag = draft_token ?p'\<rparr>
               (s\<lparr>isSaving := True, saveError := None\<rparr>))\<lparr>isSaving := False\<rparr>)"
    using assms(1-4) by (simp add: saveDraft_sends o pd)
  have tk: "draft_token ?p' \<noteq> []" "draft_token ?p' = draft_token (p\<lparr>pg_draft_rev := Suc (pg_draft_rev p)\<rparr>)"
    by (simp_all add: draft_token_def)
  show ?thesis using tk by (simp add: se save_resolved_def o)
qed


lemma confirmPublish_unfold:
  assumes "truthy (pageId (pageIdSlug (host s)))"
      and "saveDraft pageview_options put_draft now True
             (p, s\<lparr>host := (host s)\<lparr>isPublishing := True\<rparr>, saveTimeout := False\<rparr>) = (p1, s1)"
  shows "fst (confirmPublish now (p, s)) =
           snd (publish (if publishNotes (host s1) = [] then None else Some (publishNotes (host s1)))
                  (if Some (editTitle (host s1)) \<noteq> loaded_title (host s1)
                   then update_title (editTitle (host s1)) p1 else p1)) \<and>
         draftContent (host (snd (confirmPublish now (p, s)))) = draftContent (host s1) \<and>
         conflictEtag (host (snd (confirmPublish now (p, s)))) = conflictEtag (host s1)"
  using assms by (simp add: confirmPublish_def saveNow_def Let_def split: prod.splits)

text \<open>
  When the forced save of \<open>confirmPublish\<close> is accepted, the version that is published
  has the content of the editor.
\<close>

lemma publish_after_accepted_save:
  assumes "truthy (pageId (pageIdSlug (host s)))" and "\<not> isSaving s"
      and "draftContent (host s) = Some c"
      and "\<not> truthy (currentEtag (host s)) \<or> currentEtag (host s) = Some (draft_token p)"
  shows "map content_json (pg_versions (fst (confirmPublish now (p, s))))
           = map content_json (pg_versions p) @ [Some c]"
proof -
  let ?pub = "s\<lparr>host := (host s)\<lparr>isPublishing := True\<rparr>, saveTimeout := False\<rparr>"
  obtain p1 s1 where r: "saveDraft pageview_options put_draft now True (p, ?pub) = (p1, s1)"
    by (cases "saveDraft pageview_options put_draft now True (p, ?pub)")
  have a: "truthy (pageId (pageIdSlug (host ?pub)))" "\<not> isSaving ?pub"
      "draftContent (host ?pub) = Some c" "True \<or> Some c \<noteq> lastSavedContent ?pub"
      "\<not> truthy (currentEtag (host ?pub)) \<or> currentEtag (host ?pub) = Some (draft_token p)"
    using assms by simp_all
  have p1: "p1 = p\<lparr>pg_draft_json := Some c, pg_draft_text := extractPlainText (Some c),
             pg_draft_rev := Suc (pg_draft_rev p)\<rparr>"
    using saveDraft_accepted_state[OF a, of now] r by simp
  show ?thesis
    using confirmPublish_unfold[OF assms(1) r]
    by (simp add: p1 publish_def update_title_def Let_def)
qed

text \<open>
  \<open>saveNow\<close> sends nothing while another save is in flight, and \<open>confirmPublish\<close> goes on
  to publish all the same.
\<close>

lemma saveNow_while_saving:
  "isSaving s \<Longrightarrow> saveNow opts send now (srv, s) = (srv, s\<lparr>saveTimeout := False\<rparr>)"
  by (simp add: saveNow_def saveDraft_def)

text \<open>
  C5 at an editor that holds the draft \<open>mine\<close> under the stale token \<open>v2\<close>, on a page whose
  stored draft is \<open>theirs\<close> under the token \<open>v3\<close>: the forced save of \<open>confirmPublish\<close> is
  rejected with a conflict, \<open>saveDraft\<close> swallows the rejection, and the publish request
  that follows publishes the stored draft \<open>theirs\<close> as version 1, not the draft of the
  editor.
\<close>

theorem publish_after_rejected_save:
  "map content_json (pg_versions (fst (confirmPublish 7
      (example_page ''theirs'' 3, debouncedSave (init_autosave (example_view ''mine'' ''v2''))))))
     = [Some (doc_of ''theirs'')] \<and>
   map version_number (pg_versions (fst (confirmPublish 7
      (example_page ''theirs'' 3, debouncedSave (init_autosave (example_view ''mine'' ''v2''))))))
     = [1] \<and>
   draftContent (host (snd (confirmPublish 7
      (example_page ''theirs'' 3, debouncedSave (init_autosave (example_view ''mine'' ''v2''))))))
     = Some (doc_of ''mine'') \<and>
   conflictEtag (host (snd (confirmPublish 7
      (example_page ''theirs'' 3, debouncedSave (init_autosave (example_view ''mine'' ''v2''))))))
     = Some ''v3''"
proof -
  let ?p = "example_page ''theirs'' 3"
  let ?s = "debouncedSave (init_autosave (example_view ''mine'' ''v2''))"
  let ?pub = "?s\<lparr>host := (host ?s)\<lparr>isPublishing := True\<rparr>, saveTimeout := False\<rparr>"
  let ?f = "\<lambda>newEtag h. if editorRef h
              then h\<lparr>conflictEtag := Some newEtag, showConflictDialog := True\<rparr> else h"
  have hs: "host ?pub = (example_view ''mine'' ''v2'')\<lparr>isPublishing := True\<rparr>"
    by (simp add: example_host)
  have pid: "truthy (pageId (pageIdSlug (host ?s)))"
    by (simp add: example_host example_view_fields pageId_example truthy_def)
  have h1: "truthy (opt_pageId pageview_options (host ?pub))"
    by (simp add: hs pageview_options_def example_view_fields pageId_example truthy_def)
  have h2: "\<not> isSaving ?pub" by (simp add: example_host)
  have h3: "opt_content pageview_options (host ?pub) = Some (doc_of ''mine'')"
    by (simp add: hs pageview_options_def example_view_fields)
  have h4: "True \<or> Some (doc_of ''mine'') \<noteq> lastSavedContent ?pub" by simp
  have h5: "opt_etag pageview_options (host ?pub) = Some ''v2''"
    by (simp add: hs pageview_options_def example_view_fields)
  have h6: "''v2'' \<noteq> []" by simp
  have h7: "''v2'' \<noteq> draft_token ?p" by (simp add: token_examples)
  have h8: "onConflict pageview_options = Some ?f" by (simp add: pageview_options_def)
  note r = saveDraft_conflict_state[OF h1 h2 h3 h4 h5 h6 h7 h8, of 7]
  note u = confirmPublish_unfold[OF pid r]
  have v: "pg_versions ?p = []" "pg_draft_json ?p = Some (doc_of ''theirs'')"
    by (simp_all add: example_page_def)
  show ?thesis
    using u
    by (simp add: hs example_view_fields token_examples publish_def update_title_def Let_def v)
qed


end
